theory Spec2Isabelle
  imports Main "HOL-Library.Multiset"
begin

section \<open>Data model\<close>

text \<open>
  The development follows \<^verbatim>\<open>internal/repository/clickhouse/builder/query_builder.go\<close>,
  the usage-query builder of package \<^verbatim>\<open>builder\<close>. The second source file carries, next to
  the test suite of the package, an earlier copy of the same builder (same package, same type
  and method names), which numbers time placeholders without an index, binds formatted time
  strings and writes property names and group identifiers into the text as quoted literals;
  \<^verbatim>\<open>query_builder.go\<close> replaces it and is the code modelled here.
  Go strings are byte strings, modelled as \<^typ>\<open>string\<close>.
\<close>

abbreviation nl :: char where "nl \<equiv> CHR 0x0A"
abbreviation tab :: char where "tab \<equiv> CHR 0x09"

text \<open>
  \<^verbatim>\<open>time.Time\<close>: seconds and nanoseconds since the zero instant.
  \<^verbatim>\<open>IsZero\<close> reports whether both are zero.
\<close>

datatype Time = Time (sec: int) (nsec: nat)

definition IsZero :: "Time \<Rightarrow> bool" where
  "IsZero t = (sec t = 0 \<and> nsec t = 0)"

text \<open>
  The elements of \<^verbatim>\<open>[]interface{}\<close>: the builder stores strings, \<^verbatim>\<open>time.Time\<close>
  values and the integer priority of a filter group.
\<close>

datatype arg = AString string | ATime Time | AInt int

text \<open>
  \<^verbatim>\<open>types.AggregationType\<close> is a string type declared outside the sources at hand; the four
  constants are those named in the switch of \<^verbatim>\<open>WithAggregation\<close>, and
  \<open>AggregationOther\<close> stands for every value that matches none of them.
\<close>

datatype AggregationType =
  AggregationCount | AggregationSum | AggregationAvg | AggregationCountUnique | AggregationOther

text \<open>
  \<^verbatim>\<open>events.UsageParams\<close> and \<^verbatim>\<open>events.FilterGroup\<close>, with the fields the builder and
  its tests use. A filter map \<^verbatim>\<open>map[string][]string\<close> is given as the list of its entries
  in the order in which \<^verbatim>\<open>range\<close> visits them: Go leaves that order unspecified, so the
  same map may arrive as any permutation of its entries. A nil map and an empty map are both
  the empty list (\<^verbatim>\<open>range\<close> over either runs no iteration).
\<close>

type_synonym filters = "(string \<times> string list) list"

record UsageParams =
  EventName :: string
  PropertyName :: string
  AggregationType :: AggregationType
  StartTime :: Time
  EndTime :: Time
  ExternalCustomerID :: string
  CustomerID :: string
  Filters :: filters

record FilterGroup =
  ID :: string
  Priority :: int
  GroupFilters :: filters

text \<open>
  The context is read only through \<^verbatim>\<open>types.GetTenantID\<close> and
  \<^verbatim>\<open>types.GetEnvironmentID\<close>, which yield the empty string when the value is not set.
\<close>

record Context =
  TenantID :: string
  EnvironmentID :: string

definition GetTenantID :: "Context \<Rightarrow> string" where
  "GetTenantID ctx = TenantID ctx"

definition GetEnvironmentID :: "Context \<Rightarrow> string" where
  "GetEnvironmentID ctx = EnvironmentID ctx"

record ParameterizedQuery =
  Query :: string
  Args :: "arg list"

text \<open>
  The fields \<^verbatim>\<open>Query\<close> and \<^verbatim>\<open>Args\<close> of \<^verbatim>\<open>CTEComponent\<close> are written \<open>CQuery\<close> and
  \<open>CArgs\<close>, and the field \<^verbatim>\<open>Filters\<close> of \<^verbatim>\<open>FilterGroup\<close> is written \<open>GroupFilters\<close>, to
  keep them apart from the fields of the same name in the other records.
\<close>

record CTEComponent =
  Name :: string
  CQuery :: string
  CArgs :: "arg list"

record QueryBuilder =
  baseQuery :: ParameterizedQuery
  filterQuery :: ParameterizedQuery
  matchedQuery :: ParameterizedQuery
  finalQuery :: ParameterizedQuery
  cteComponents :: "CTEComponent list"
  params :: "UsageParams option"

definition NewQueryBuilder :: QueryBuilder where
  "NewQueryBuilder =
     \<lparr>baseQuery = \<lparr>Query = [], Args = []\<rparr>,
      filterQuery = \<lparr>Query = [], Args = []\<rparr>,
      matchedQuery = \<lparr>Query = [], Args = []\<rparr>,
      finalQuery = \<lparr>Query = [], Args = []\<rparr>,
      cteComponents = [],
      params = None\<rparr>"

section \<open>String helpers of the Go library\<close>

text \<open>
  \<^verbatim>\<open>fmt.Sprintf("%d", n)\<close> for the argument indices, which start at 1 and only grow
  (an index would need more than \<open>2^63\<close> arguments to overflow a Go \<^verbatim>\<open>int\<close>).
\<close>

fun itoa :: "nat \<Rightarrow> string" where
  "itoa n = (if n < 10 then [''0123456789'' ! n]
             else itoa (n div 10) @ [''0123456789'' ! (n mod 10)])"

declare itoa.simps [simp del]

text \<open>\<^verbatim>\<open>strings.Join\<close>.\<close>

fun join :: "string \<Rightarrow> string list \<Rightarrow> string" where
  "join sep [] = []"
| "join sep [x] = x"
| "join sep (x # y # ys) = x @ sep @ join sep (y # ys)"

text \<open>\<^verbatim>\<open>strings.Split\<close> with a one-byte separator.\<close>

fun split :: "char \<Rightarrow> string \<Rightarrow> string list" where
  "split sep [] = [[]]"
| "split sep (c # cs) =
     (if c = sep then [] # split sep cs
      else (case split sep cs of [] \<Rightarrow> [[c]] | p # ps \<Rightarrow> (c # p) # ps))"

text \<open>\<^verbatim>\<open>strings.TrimSpace\<close> on ASCII text and \<^verbatim>\<open>strings.TrimPrefix\<close>.\<close>

definition is_space :: "char \<Rightarrow> bool" where
  "is_space c = (c \<in> set [CHR '' '', tab, nl, CHR 0x0B, CHR 0x0C, CHR 0x0D])"

definition TrimSpace :: "string \<Rightarrow> string" where
  "TrimSpace s = rev (dropWhile is_space (rev (dropWhile is_space s)))"

definition TrimPrefix :: "string \<Rightarrow> string \<Rightarrow> string" where
  "TrimPrefix s p = (if take (length p) s = p then drop (length p) s else s)"

section \<open>The builder\<close>

definition getDeduplicationKey :: string where
  "getDeduplicationKey = ''tenant_id, environment_id, timestamp, id''"

text \<open>\<^verbatim>\<open>parseTimeConditionsWithIndex\<close>: conditions, arguments and the next free index.\<close>

definition parseTimeConditionsWithIndex ::
  "UsageParams \<Rightarrow> nat \<Rightarrow> string list \<times> arg list \<times> nat" where
  "parseTimeConditionsWithIndex p startIndex =
     (let (c1, a1, i1) =
            (if \<not> IsZero (StartTime p)
             then ([''timestamp >= toDateTime64(?'' @ itoa startIndex @ '', 3)''],
                   [ATime (StartTime p)], startIndex + 1)
             else ([], [], startIndex))
      in if \<not> IsZero (EndTime p)
         then (c1 @ [''timestamp < toDateTime64(?'' @ itoa i1 @ '', 3)''],
               a1 @ [ATime (EndTime p)], i1 + 1)
         else (c1, a1, i1))"

text \<open>
  The condition compiled for one property with a non-empty value list: the body of the
  \<^verbatim>\<open>range\<close> loops of \<^verbatim>\<open>WithBaseFilters\<close> and \<^verbatim>\<open>WithFilterGroups\<close>, which is the same
  text in both. It yields the condition, the arguments appended for it, in the order of the
  \<^verbatim>\<open>append\<close> calls, and the next free index.
\<close>

definition filterCondition :: "string \<Rightarrow> string list \<Rightarrow> nat \<Rightarrow> string \<times> arg list \<times> nat" where
  "filterCondition property vals argIndex =
     (if length vals = 1
      then (''JSONExtractString(properties, ?'' @ itoa argIndex @ '') = ?'' @ itoa (argIndex + 1),
            [AString property, AString (vals ! 0)],
            argIndex + 2)
      else (''JSONExtractString(properties, ?'' @ itoa argIndex @ '') IN (''
              @ join '','' (map (\<lambda>i. ''?'' @ itoa (argIndex + i + 1)) [0..<length vals]) @ '')'',
            map AString vals @ [AString property],
            argIndex + length vals + 1))"

text \<open>The loop over a filter map; entries with no value are skipped.\<close>

fun filterLoop :: "filters \<Rightarrow> string list \<Rightarrow> arg list \<Rightarrow> nat \<Rightarrow> string list \<times> arg list \<times> nat" where
  "filterLoop [] conditions args argIndex = (conditions, args, argIndex)"
| "filterLoop ((property, vals) # rest) conditions args argIndex =
     (if length vals > 0
      then (let (condition, as, argIndex') = filterCondition property vals argIndex
            in filterLoop rest (conditions @ [condition]) (args @ as) argIndex')
      else filterLoop rest conditions args argIndex)"

text \<open>
  The conditions and arguments that \<^verbatim>\<open>WithBaseFilters\<close> collects before it builds the
  fragment.
\<close>

definition baseConditions :: "Context \<Rightarrow> UsageParams \<Rightarrow> string list \<times> arg list" where
  "baseConditions ctx p =
     (let argIndex = 1;
          conditions = [''event_name = ?'' @ itoa argIndex];
          args = [AString (EventName p)];
          argIndex = argIndex + 1;
          tenantID = GetTenantID ctx;
          (conditions, args, argIndex) =
             (if tenantID \<noteq> [] then (conditions @ [''tenant_id = ?'' @ itoa argIndex],
                                       args @ [AString tenantID], argIndex + 1)
              else (conditions, args, argIndex));
          environmentID = GetEnvironmentID ctx;
          (conditions, args, argIndex) =
             (if environmentID \<noteq> [] then (conditions @ [''environment_id = ?'' @ itoa argIndex],
                                            args @ [AString environmentID], argIndex + 1)
              else (conditions, args, argIndex));
          (timeConditions, timeArgs, newArgIndex) = parseTimeConditionsWithIndex p argIndex;
          conditions = conditions @ timeConditions;
          args = args @ timeArgs;
          argIndex = newArgIndex;
          (conditions, args, argIndex) =
             (if ExternalCustomerID p \<noteq> []
              then (conditions @ [''external_customer_id = ?'' @ itoa argIndex],
                    args @ [AString (ExternalCustomerID p)], argIndex + 1)
              else (conditions, args, argIndex));
          (conditions, args, argIndex) =
             (if CustomerID p \<noteq> []
              then (conditions @ [''customer_id = ?'' @ itoa argIndex],
                    args @ [AString (CustomerID p)], argIndex + 1)
              else (conditions, args, argIndex));
          (conditions, args, argIndex) = filterLoop (Filters p) conditions args argIndex
      in (conditions, args))"

definition baseText :: "string \<Rightarrow> string" where
  "baseText whereClause =
     ''base_events AS ('' @ [nl, tab, tab, tab] @
     ''SELECT * FROM ('' @ [nl, tab, tab, tab, tab] @
     ''SELECT DISTINCT ON ('' @ getDeduplicationKey @ '') * FROM events WHERE '' @ whereClause @
     '' ORDER BY '' @ getDeduplicationKey @ '' DESC'' @ [nl, tab, tab, tab] @
     '')'' @ [nl, tab, tab] @ '')''"

definition WithBaseFilters :: "Context \<Rightarrow> UsageParams \<Rightarrow> QueryBuilder \<Rightarrow> QueryBuilder" where
  "WithBaseFilters ctx p qb =
     (let (conditions, args) = baseConditions ctx p;
          whereClause = join '' AND '' conditions;
          query = baseText whereClause
      in qb\<lparr>params := Some p,
            baseQuery := \<lparr>Query = query, Args = args\<rparr>,
            cteComponents := cteComponents qb @
               [\<lparr>Name = ''base_events'', CQuery = query, CArgs = args\<rparr>]\<rparr>)"

text \<open>The loop of \<^verbatim>\<open>WithFilterGroups\<close> over the groups.\<close>

fun groupLoop :: "FilterGroup list \<Rightarrow> string list \<Rightarrow> arg list \<Rightarrow> nat \<Rightarrow> string list \<times> arg list \<times> nat" where
  "groupLoop [] filterConditions allArgs argIndex = (filterConditions, allArgs, argIndex)"
| "groupLoop (g # rest) filterConditions allArgs argIndex =
     (let (conditions, groupArgs, localArgIndex) = filterLoop (GroupFilters g) [] [] argIndex;
          argIndex = localArgIndex
      in if length conditions > 0
         then groupLoop rest
                (filterConditions @
                   [''(?'' @ itoa argIndex @ '', ?'' @ itoa (argIndex + 1) @ '', (''
                      @ join '' AND '' conditions @ ''))''])
                (allArgs @ [AString (ID g), AInt (Priority g)] @ groupArgs)
                (argIndex + 2)
         else groupLoop rest
                (filterConditions @
                   [''(?'' @ itoa argIndex @ '', ?'' @ itoa (argIndex + 1) @ '', 1)''])
                (allArgs @ [AString (ID g), AInt (Priority g)])
                (argIndex + 2))"

definition filterText :: "string \<Rightarrow> string" where
  "filterText groupsText =
     ''filter_matches AS ('' @ [nl, tab, tab] @
     ''SELECT '' @ [nl, tab, tab, tab] @
     ''id,'' @ [nl, tab, tab, tab] @
     ''timestamp,'' @ [nl, tab, tab, tab] @
     ''properties,'' @ [nl, tab, tab, tab] @
     ''arrayMap(x -> ('' @ [nl, tab, tab, tab, tab] @
     ''x.1,'' @ [nl, tab, tab, tab, tab] @
     ''x.2,'' @ [nl, tab, tab, tab, tab] @
     ''x.3'' @ [nl, tab, tab, tab] @
     ''), ['' @ groupsText @ '']) as group_matches'' @ [nl, tab, tab] @
     ''FROM base_events'' @ [nl, tab] @ '')''"

definition matchedQueryText :: string where
  "matchedQueryText =
     ''matched_events AS ('' @ [nl, tab, tab] @
     ''SELECT'' @ [nl, tab, tab, tab] @
     ''id,'' @ [nl, tab, tab, tab] @
     ''timestamp,'' @ [nl, tab, tab, tab] @
     ''properties,'' @ [nl, tab, tab, tab] @
     ''arrayJoin(group_matches) as matched_group,'' @ [nl, tab, tab, tab] @
     ''matched_group.1 as group_id,'' @ [nl, tab, tab, tab] @
     ''matched_group.2 as total_filters,'' @ [nl, tab, tab, tab] @
     ''matched_group.3 as matches'' @ [nl, tab, tab] @
     ''FROM filter_matches'' @ [nl, tab] @
     ''),'' @ [nl, tab] @
     ''best_matches AS ('' @ [nl, tab, tab] @
     ''SELECT'' @ [nl, tab, tab, tab] @
     ''id,'' @ [nl, tab, tab, tab] @
     ''properties,'' @ [nl, tab, tab, tab] @
     ''argMax(group_id, (total_filters, group_id)) as best_match_group'' @ [nl, tab, tab] @
     ''FROM matched_events'' @ [nl, tab, tab] @
     ''WHERE matches = 1'' @ [nl, tab, tab] @
     ''GROUP BY id, properties'' @ [nl, tab] @ '')''"

text \<open>
  The loop that splits the matched query at its commas and appends one component per
  non-empty piece; \<open>i\<close> is the index of the piece.
\<close>

fun matchedComponents :: "nat \<Rightarrow> string list \<Rightarrow> CTEComponent list" where
  "matchedComponents i [] = []"
| "matchedComponents i (cte # rest) =
     (let cte = TrimSpace cte
      in if cte \<noteq> []
         then \<lparr>Name = ''matched_cte_'' @ itoa i,
               CQuery = (if i = 0 then TrimPrefix cte ''matched_events AS ('' else TrimSpace cte),
               CArgs = []\<rparr> # matchedComponents (i + 1) rest
         else matchedComponents (i + 1) rest)"

definition WithFilterGroups :: "Context \<Rightarrow> FilterGroup list \<Rightarrow> QueryBuilder \<Rightarrow> QueryBuilder" where
  "WithFilterGroups ctx groups qb =
     (if length groups = 0 then qb
      else (let (filterConditions, allArgs, argIndex) = groupLoop groups [] [] 1;
                query = filterText (join ('','' @ [nl, tab, tab, tab]) filterConditions)
            in qb\<lparr>filterQuery := \<lparr>Query = query, Args = allArgs\<rparr>,
                  matchedQuery := \<lparr>Query = matchedQueryText, Args = []\<rparr>,
                  cteComponents := cteComponents qb @
                     [\<lparr>Name = ''filter_matches'', CQuery = query, CArgs = allArgs\<rparr>] @
                     matchedComponents 0 (split (CHR '','') matchedQueryText)\<rparr>))"

definition aggClause :: "AggregationType \<Rightarrow> string \<Rightarrow> string \<times> arg list" where
  "aggClause aggType propertyName =
     (case aggType of
        AggregationCount \<Rightarrow> (''COUNT(*)'', [])
      | AggregationSum \<Rightarrow>
          (''SUM(CAST(JSONExtractString(properties, ?'' @ itoa 1 @ '') AS Float64))'',
           [AString propertyName])
      | AggregationAvg \<Rightarrow>
          (''AVG(CAST(JSONExtractString(properties, ?'' @ itoa 1 @ '') AS Float64))'',
           [AString propertyName])
      | AggregationCountUnique \<Rightarrow>
          (''COUNT(DISTINCT JSONExtractString(properties, ?'' @ itoa 1 @ ''))'',
           [AString propertyName])
      | AggregationOther \<Rightarrow> ([], []))"

definition WithAggregation :: "Context \<Rightarrow> AggregationType \<Rightarrow> string \<Rightarrow> QueryBuilder \<Rightarrow> QueryBuilder" where
  "WithAggregation ctx aggType propertyName qb =
     (let (clause, args) = aggClause aggType propertyName;
          query = ''SELECT best_match_group as filter_group_id, '' @ clause @
                  '' as value FROM best_matches GROUP BY best_match_group ORDER BY best_match_group''
      in qb\<lparr>finalQuery := \<lparr>Query = query, Args = args\<rparr>\<rparr>)"

definition Build :: "QueryBuilder \<Rightarrow> string \<times> arg list" where
  "Build qb =
     (let cteParts = map CQuery (cteComponents qb);
          allArgs = concat (map CArgs (cteComponents qb));
          ctePart = join ('','' @ [nl]) cteParts;
          finalQueryText = ''WITH '' @ ctePart @ [nl] @ Query (finalQuery qb)
      in (finalQueryText, allArgs @ Args (finalQuery qb)))"

text \<open>
  The builder after the chain of calls the tests make, \<^verbatim>\<open>WithBaseFilters\<close>,
  \<^verbatim>\<open>WithFilterGroups\<close>, \<^verbatim>\<open>WithAggregation\<close> on a new builder, and the compiled
  output that \<^verbatim>\<open>Build\<close> returns for it.
\<close>

definition staged :: "Context \<Rightarrow> UsageParams \<Rightarrow> FilterGroup list \<Rightarrow> AggregationType \<Rightarrow> string \<Rightarrow> QueryBuilder" where
  "staged ctx p groups aggType propertyName =
     WithAggregation ctx aggType propertyName
       (WithFilterGroups ctx groups (WithBaseFilters ctx p NewQueryBuilder))"

definition compile ::
  "Context \<Rightarrow> UsageParams \<Rightarrow> FilterGroup list \<Rightarrow> AggregationType \<Rightarrow> string \<Rightarrow> string \<times> arg list" where
  "compile ctx p groups aggType propertyName = Build (staged ctx p groups aggType propertyName)"

section \<open>Reading placeholders back from a statement\<close>

text \<open>
  The positional placeholders of a text are the matches of the pattern \<^verbatim>\<open>\?\d+\<close>, found
  from left to right as the tests do with \<^verbatim>\<open>FindAllString\<close>; each is read as its number.
\<close>

definition is_digit :: "char \<Rightarrow> bool" where
  "is_digit c = (c \<in> set ''0123456789'')"

definition digit_val :: "char \<Rightarrow> nat" where
  "digit_val c = of_char c - 48"

definition atoi :: "string \<Rightarrow> nat" where
  "atoi s = foldl (\<lambda>a c. 10 * a + digit_val c) 0 s"

function placeholders :: "string \<Rightarrow> nat list" where
  "placeholders [] = []"
| "placeholders (c # cs) =
     (if c = CHR ''?'' \<and> takeWhile is_digit cs \<noteq> []
      then atoi (takeWhile is_digit cs) # placeholders (dropWhile is_digit cs)
      else placeholders cs)"
  by pat_completeness auto
termination
  by (relation "measure length") (auto simp: length_dropWhile_le less_Suc_eq_le)

section \<open>Inputs taken from the test suite and from the specified scenario\<close>

text \<open>A context that carries neither a tenant nor an environment.\<close>

definition emptyContext :: Context where
  "emptyContext = \<lparr>TenantID = [], EnvironmentID = []\<rparr>"

text \<open>\<^verbatim>\<open>createTestContext("tenant_123", "env_123")\<close>.\<close>

definition testContext :: Context where
  "testContext = \<lparr>TenantID = ''tenant_123'', EnvironmentID = ''env_123''\<rparr>"

text \<open>
  The scenario query: event \<^verbatim>\<open>api_call\<close>, one filter on \<^verbatim>\<open>region\<close> with two values, and the
  window from \<open>T0\<close> = 2024-01-01 00:00:00 UTC to \<open>T1\<close> = 2024-02-01 00:00:00 UTC.
\<close>

definition T0 :: Time where "T0 = Time 63839664000 0"
definition T1 :: Time where "T1 = Time 63842342400 0"

definition apiCallParams :: UsageParams where
  "apiCallParams =
     \<lparr>EventName = ''api_call'', PropertyName = [], AggregationType = AggregationCount,
      StartTime = T0, EndTime = T1, ExternalCustomerID = [], CustomerID = [],
      Filters = [(''region'', [''us-east-1'', ''us-west-1''])]\<rparr>"

text \<open>
  The parameters of \<^verbatim>\<open>TestFunctionalEquivalenceWithBaseFilters\<close>; the entries of its filter
  map are passed in the order in which the runtime visits them.
\<close>

definition equivalenceParams :: "filters \<Rightarrow> UsageParams" where
  "equivalenceParams fs =
     \<lparr>EventName = ''api_calls'', PropertyName = ''duration'', AggregationType = AggregationSum,
      StartTime = Time 63839664000 0, EndTime = Time 63842342399 0,
      ExternalCustomerID = ''cust_external_456'', CustomerID = ''cust_456'',
      Filters = fs\<rparr>"

definition endpointFilter :: "string \<times> string list" where
  "endpointFilter = (''endpoint'', [''/api/v1/users'', ''/api/v1/orders''])"

definition methodFilter :: "string \<times> string list" where
  "methodFilter = (''method'', [''GET''])"

text \<open>
  A query with an event name only, and the group of the test
  \<^verbatim>\<open>Filter group with empty filters\<close>.
\<close>

definition sumParams :: UsageParams where
  "sumParams =
     \<lparr>EventName = ''test_event'', PropertyName = ''amount'', AggregationType = AggregationSum,
      StartTime = Time 0 0, EndTime = Time 0 0, ExternalCustomerID = [], CustomerID = [],
      Filters = []\<rparr>"

definition emptyGroup :: FilterGroup where
  "emptyGroup = \<lparr>ID = ''empty_group'', Priority = 1, GroupFilters = []\<rparr>"

text \<open>
  A query and a group in which every caller-supplied string position that the injection tests
  vary holds the same string \<open>s\<close>.
\<close>

definition injectionParams :: "string \<Rightarrow> UsageParams" where
  "injectionParams s =
     \<lparr>EventName = s, PropertyName = ''test_property'', AggregationType = AggregationCount,
      StartTime = T0, EndTime = T1, ExternalCustomerID = s, CustomerID = ''cust_123'',
      Filters = [(s, [s]), (''region'', [''us-west-1'', s])]\<rparr>"

definition injectionGroup :: "string \<Rightarrow> FilterGroup" where
  "injectionGroup s = \<lparr>ID = s, Priority = 1, GroupFilters = [(''malicious_property'', [s])]\<rparr>"

section \<open>Notions used to state and prove the properties\<close>

definition reads :: "string \<Rightarrow> nat list \<Rightarrow> bool" where
  "reads s ns = (\<forall>t. (t = [] \<or> \<not> is_digit (hd t)) \<longrightarrow> placeholders (s @ t) = ns @ placeholders t)"

definition optStage :: "bool \<Rightarrow> string \<Rightarrow> arg \<Rightarrow> string list \<times> arg list \<times> nat \<Rightarrow> string list \<times> arg list \<times> nat" where
  "optStage b lit a s =
     (case s of (c, as, i) \<Rightarrow> if b then (c @ [lit @ itoa i], as @ [a], i + 1) else (c, as, i))"

definition timeStage :: "UsageParams \<Rightarrow> string list \<times> arg list \<times> nat \<Rightarrow> string list \<times> arg list \<times> nat" where
  "timeStage p s =
     (case s of (c, as, i) \<Rightarrow>
        (case parseTimeConditionsWithIndex p i of (tc, ta, j) \<Rightarrow> (c @ tc, as @ ta, j)))"

definition filterStage :: "filters \<Rightarrow> string list \<times> arg list \<times> nat \<Rightarrow> string list \<times> arg list \<times> nat" where
  "filterStage fs s = (case s of (c, as, i) \<Rightarrow> filterLoop fs c as i)"

definition baseStages :: "Context \<Rightarrow> UsageParams \<Rightarrow> string list \<times> arg list \<times> nat" where
  "baseStages ctx p =
     filterStage (Filters p)
       (optStage (CustomerID p \<noteq> []) ''customer_id = ?'' (AString (CustomerID p))
         (optStage (ExternalCustomerID p \<noteq> []) ''external_customer_id = ?'' (AString (ExternalCustomerID p))
           (timeStage p
             (optStage (GetEnvironmentID ctx \<noteq> []) ''environment_id = ?'' (AString (GetEnvironmentID ctx))
               (optStage (GetTenantID ctx \<noteq> []) ''tenant_id = ?'' (AString (GetTenantID ctx))
                 ([''event_name = ?'' @ itoa 1], [AString (EventName p)], 2))))))"

definition b2n :: "bool \<Rightarrow> nat" where
  "b2n b = (if b then 1 else 0)"

text \<open>The index at which each part of the base conditions starts.\<close>

definition timeIndex :: "Context \<Rightarrow> nat" where
  "timeIndex ctx = 2 + b2n (GetTenantID ctx \<noteq> []) + b2n (GetEnvironmentID ctx \<noteq> [])"

definition customerIndex :: "Context \<Rightarrow> UsageParams \<Rightarrow> nat" where
  "customerIndex ctx p = timeIndex ctx + b2n (\<not> IsZero (StartTime p)) + b2n (\<not> IsZero (EndTime p))"

definition filterIndex :: "Context \<Rightarrow> UsageParams \<Rightarrow> nat" where
  "filterIndex ctx p =
     customerIndex ctx p + b2n (ExternalCustomerID p \<noteq> []) + b2n (CustomerID p \<noteq> [])"

definition numbered :: "string list \<times> arg list \<times> nat \<Rightarrow> bool" where
  "numbered s =
     (case s of (c, as, i) \<Rightarrow>
        c \<noteq> [] \<and> i = Suc (length as) \<and> reads (join '' AND '' c) [1..<i])"

definition filtersShape :: "filters \<Rightarrow> nat list" where
  "filtersShape fs = map (\<lambda>f. length (snd f)) fs"

definition queryShape ::
  "Context \<Rightarrow> UsageParams \<Rightarrow> FilterGroup list \<Rightarrow>
   (bool \<times> bool) \<times> (bool \<times> bool) \<times> (bool \<times> bool) \<times> nat list \<times> nat list list" where
  "queryShape ctx p groups =
     ((GetTenantID ctx = [], GetEnvironmentID ctx = []),
      (IsZero (StartTime p), IsZero (EndTime p)),
      (ExternalCustomerID p = [], CustomerID p = []),
      filtersShape (Filters p),
      map (\<lambda>g. filtersShape (GroupFilters g)) groups)"

definition filterStrings :: "filters \<Rightarrow> string list" where
  "filterStrings fs = concat (map (\<lambda>f. if snd f = [] then [] else fst f # snd f) fs)"

definition suppliedStrings :: "UsageParams \<Rightarrow> FilterGroup list \<Rightarrow> string list" where
  "suppliedStrings p groups =
     EventName p # filter (\<lambda>s. s \<noteq> []) [ExternalCustomerID p, CustomerID p] @
     filterStrings (Filters p) @
     concat (map (\<lambda>g. ID g # filterStrings (GroupFilters g)) groups)"

text \<open>
  \<^verbatim>\<open>strings.HasPrefix(s, prefix)\<close>.
\<close>

fun HasPrefix :: "string \<Rightarrow> string \<Rightarrow> bool" where
  "HasPrefix s [] = True"
| "HasPrefix [] (d # q) = False"
| "HasPrefix (c # s) (d # q) = (c = d \<and> HasPrefix s q)"

text \<open>
  \<^verbatim>\<open>strings.Contains(s, sub)\<close>: \<open>sub\<close> occurs in \<open>s\<close> as a contiguous substring.
\<close>

fun Contains :: "string \<Rightarrow> string \<Rightarrow> bool" where
  "Contains [] sub = (sub = [])"
| "Contains (c # s) sub = (HasPrefix (c # s) sub \<or> Contains s sub)"

text \<open>
  A pattern that holds no digit and no closing parenthesis and does not start with a character
  of the separator \<^verbatim>\<open> AND \<close>. Such a pattern cannot straddle the end of a condition, which
  is a placeholder number or a closing parenthesis, nor start inside the separator.
\<close>

definition plainPattern :: "string \<Rightarrow> bool" where
  "plainPattern P = (P \<noteq> [] \<and> list_all (\<lambda>c. \<not> is_digit c \<and> c \<noteq> CHR '')'') P \<and> hd P \<notin> set '' AND '')"

text \<open>
  A condition that ends in a digit or in a closing parenthesis, as every condition of the
  builder does.
\<close>

definition endsClosed :: "string \<Rightarrow> bool" where
  "endsClosed c = (c \<noteq> [] \<and> (is_digit (last c) \<or> last c = CHR '')''))"

text \<open>
  The conditions of the base fragment after the leading \<^verbatim>\<open>event_name = ?1\<close>.
\<close>

definition baseRest :: "Context \<Rightarrow> UsageParams \<Rightarrow> string list" where
  "baseRest ctx p =
      (if GetTenantID ctx \<noteq> [] then [''tenant_id = ?'' @ itoa 2] else []) @
      (if GetEnvironmentID ctx \<noteq> []
       then [''environment_id = ?'' @ itoa (2 + b2n (GetTenantID ctx \<noteq> []))] else []) @
      fst (parseTimeConditionsWithIndex p (timeIndex ctx)) @
      (if ExternalCustomerID p \<noteq> []
       then [''external_customer_id = ?'' @ itoa (customerIndex ctx p)] else []) @
      (if CustomerID p \<noteq> []
       then [''customer_id = ?'' @ itoa (customerIndex ctx p + b2n (ExternalCustomerID p \<noteq> []))]
       else []) @
      fst (filterLoop (Filters p) [] [] (filterIndex ctx p))"

section \<open>Properties\<close>

subsection \<open>Decimal rendering and reading of single placeholders\<close>

lemma digit_cases: "d < 10 \<Longrightarrow> d \<in> {0, 1, 2, 3, 4, 5, 6, 7, 8, 9::nat}"
  by auto

lemma digit_char_props:
  assumes "d < 10"
  shows "is_digit (''0123456789'' ! d)" and "digit_val (''0123456789'' ! d) = d"
    and "''0123456789'' ! d \<noteq> CHR ''?''"
  using digit_cases [OF assms] by (auto simp: is_digit_def digit_val_def)

lemma itoa_not_Nil: "itoa n \<noteq> []"
  by (subst itoa.simps) simp

lemma itoa_digits: "c \<in> set (itoa n) \<Longrightarrow> is_digit c"
proof (induction n arbitrary: c rule: itoa.induct)
  case (1 n)
  show ?case
  proof (cases "n < 10")
    case True
    with "1.prems" show ?thesis
      by (subst (asm) itoa.simps) (simp add: digit_char_props)
  next
    case False
    with "1.prems" have "c \<in> set (itoa (n div 10)) \<or> c = ''0123456789'' ! (n mod 10)"
      by (subst (asm) itoa.simps) auto
    with False "1.IH" show ?thesis
      by (auto simp: digit_char_props)
  qed
qed

lemma atoi_snoc: "atoi (s @ [c]) = 10 * atoi s + digit_val c"
  by (simp add: atoi_def)

lemma atoi_itoa: "atoi (itoa n) = n"
proof (induction n rule: itoa.induct)
  case (1 n)
  show ?case
  proof (cases "n < 10")
    case True
    then show ?thesis
      by (subst itoa.simps) (simp add: atoi_def digit_char_props)
  next
    case False
    with "1.IH" show ?thesis
      by (subst itoa.simps) (simp add: atoi_snoc digit_char_props)
  qed
qed

lemma is_digit_not_qmark: "is_digit c \<Longrightarrow> c \<noteq> CHR ''?''"
  by (auto simp: is_digit_def)

lemma qmark_notin_itoa: "CHR ''?'' \<notin> set (itoa n)"
  using itoa_digits is_digit_not_qmark by blast

lemma placeholders_lit: "CHR ''?'' \<notin> set s \<Longrightarrow> placeholders (s @ t) = placeholders t"
  by (induction s) auto

lemma takeWhile_itoa:
  assumes "t = [] \<or> \<not> is_digit (hd t)"
  shows "takeWhile is_digit (itoa n @ t) = itoa n" and "dropWhile is_digit (itoa n @ t) = t"
proof -
  have t: "takeWhile is_digit t = []" "dropWhile is_digit t = t"
    using assms by (cases t; auto)+
  show "takeWhile is_digit (itoa n @ t) = itoa n"
    by (simp add: itoa_digits t)
  show "dropWhile is_digit (itoa n @ t) = t"
    by (simp add: itoa_digits t)
qed

lemma placeholders_ph:
  "t = [] \<or> \<not> is_digit (hd t) \<Longrightarrow> placeholders (CHR ''?'' # itoa n @ t) = n # placeholders t"
  by (simp add: takeWhile_itoa itoa_not_Nil atoi_itoa)

subsection \<open>The condition compiler\<close>

lemma placeholders_other: "c \<noteq> CHR ''?'' \<Longrightarrow> placeholders (c # cs) = placeholders cs"
  by simp

lemma placeholders_ph_end: "placeholders (CHR ''?'' # itoa n) = [n]"
  using placeholders_ph [of "[]" n] by simp

lemmas ph_simps = placeholders_other placeholders_ph placeholders_ph_end

declare placeholders.simps(2) [simp del]

lemma placeholders_join_phs:
  "t = [] \<or> \<not> is_digit (hd t) \<Longrightarrow>
   placeholders (join '','' (map (\<lambda>n. ''?'' @ itoa n) ns) @ t) = ns @ placeholders t"
proof (induction ns)
  case Nil
  then show ?case by simp
next
  case (Cons n ns)
  show ?case
  proof (cases ns)
    case Nil
    with Cons.prems show ?thesis by (simp add: ph_simps)
  next
    case (Cons m ms)
    have "placeholders (CHR ''?'' # itoa n @ (CHR '','' # join '','' (map (\<lambda>n. ''?'' @ itoa n) ns) @ t))
          = n # placeholders (CHR '','' # join '','' (map (\<lambda>n. ''?'' @ itoa n) ns) @ t)"
      by (rule placeholders_ph) (simp add: is_digit_def)
    with Cons Cons.IH [OF Cons.prems] show ?thesis
      by (simp add: ph_simps)
  qed
qed

lemma value_indices: "map (\<lambda>i. argIndex + i + 1) [0..<k] = [Suc argIndex..<Suc (argIndex + k)]"
  by (induction k) auto

lemma in_placeholders:
  "map (\<lambda>i. ''?'' @ itoa (argIndex + i + 1)) [0..<k]
   = map (\<lambda>n. ''?'' @ itoa n) [Suc argIndex..<Suc (argIndex + k)]"
proof -
  have "map (\<lambda>i. ''?'' @ itoa (argIndex + i + 1)) [0..<k]
        = map (\<lambda>n. ''?'' @ itoa n) (map (\<lambda>i. argIndex + i + 1) [0..<k])"
    by (simp add: comp_def)
  then show ?thesis by (simp only: value_indices)
qed

lemma filterCondition_single_reads:
  assumes "t = [] \<or> \<not> is_digit (hd t)"
  shows "placeholders (fst (filterCondition property [v] i) @ t) = [i, i + 1] @ placeholders t"
  using assms by (simp add: filterCondition_def ph_simps is_digit_def)

lemma filterCondition_multi_reads:
  assumes "t = [] \<or> \<not> is_digit (hd t)" and "length vals \<noteq> 1"
  shows "placeholders (fst (filterCondition property vals i) @ t)
         = [i..<Suc (i + length vals)] @ placeholders t"
proof -
  have "placeholders (CHR ''?'' # itoa i @ '') IN ('' @
          join '','' (map (\<lambda>n. ''?'' @ itoa n) [Suc i..<Suc (i + length vals)]) @ CHR '')'' # t)
        = i # placeholders ('') IN ('' @
          join '','' (map (\<lambda>n. ''?'' @ itoa n) [Suc i..<Suc (i + length vals)]) @ CHR '')'' # t)"
    by (rule placeholders_ph) (simp add: is_digit_def)
  moreover have "placeholders (join '','' (map (\<lambda>n. ''?'' @ itoa n) [Suc i..<Suc (i + length vals)]) @ CHR '')'' # t)
        = [Suc i..<Suc (i + length vals)] @ placeholders (CHR '')'' # t)"
    by (rule placeholders_join_phs) (simp add: is_digit_def)
  ultimately show ?thesis
    using assms(2) unfolding filterCondition_def in_placeholders
    by (simp add: placeholders_other upt_conv_Cons del: upt_Suc)
qed

text \<open>
  Claim C3. A property filter with a single allowed value compiles to an equality condition
  that consumes exactly two placeholders, one for the property name and one for the value; a
  filter with \<open>k > 1\<close> allowed values compiles to a set-membership condition that consumes
  exactly \<open>1 + k\<close> placeholders, one for the property name and one per value. In neither
  case does the text of the condition depend on the property name (or on the values): it is
  never embedded as literal text.
\<close>

theorem filterCondition_placeholders:
  "(vals = [v] \<longrightarrow>
      filterCondition property vals i =
        (''JSONExtractString(properties, ?'' @ itoa i @ '') = ?'' @ itoa (i + 1),
         [AString property, AString v], i + 2) \<and>
      placeholders (fst (filterCondition property vals i)) = [i, i + 1]) \<and>
   (length vals > 1 \<longrightarrow>
      filterCondition property vals i =
        (''JSONExtractString(properties, ?'' @ itoa i @ '') IN ('' @
           join '','' (map (\<lambda>n. ''?'' @ itoa n) [i + 1..<i + 1 + length vals]) @ '')'',
         map AString vals @ [AString property], i + length vals + 1) \<and>
      placeholders (fst (filterCondition property vals i)) = [i..<i + 1 + length vals] \<and>
      length (placeholders (fst (filterCondition property vals i))) = 1 + length vals) \<and>
   (length vals' = length vals \<longrightarrow>
      fst (filterCondition property' vals' i) = fst (filterCondition property vals i))"
proof (intro conjI impI)
  assume "vals = [v]"
  then show "filterCondition property vals i =
        (''JSONExtractString(properties, ?'' @ itoa i @ '') = ?'' @ itoa (i + 1),
         [AString property, AString v], i + 2)"
    by (simp add: filterCondition_def)
  from \<open>vals = [v]\<close> show "placeholders (fst (filterCondition property vals i)) = [i, i + 1]"
    using filterCondition_single_reads [of "[]" property v i] by simp
next
  assume k: "length vals > 1"
  then show "filterCondition property vals i =
        (''JSONExtractString(properties, ?'' @ itoa i @ '') IN ('' @
           join '','' (map (\<lambda>n. ''?'' @ itoa n) [i + 1..<i + 1 + length vals]) @ '')'',
         map AString vals @ [AString property], i + length vals + 1)"
    unfolding filterCondition_def in_placeholders by simp
  from k show p: "placeholders (fst (filterCondition property vals i)) = [i..<i + 1 + length vals]"
    using filterCondition_multi_reads [of "[]" vals property i] by simp
  show "length (placeholders (fst (filterCondition property vals i))) = 1 + length vals"
    by (simp add: p)
next
  assume "length vals' = length vals"
  then show "fst (filterCondition property' vals' i) = fst (filterCondition property vals i)"
    by (simp add: filterCondition_def)
qed

text \<open>
  Claim C3 at concrete filters: \<^verbatim>\<open>tier = gold\<close> and \<^verbatim>\<open>region in (us-east-1, us-west-1)\<close>, both
  starting at index 4.
\<close>

theorem filterCondition_placeholders_witness:
  "filterCondition ''tier'' [''gold''] 4 =
     (''JSONExtractString(properties, ?4) = ?5'', [AString ''tier'', AString ''gold''], 6) \<and>
   placeholders (fst (filterCondition ''tier'' [''gold''] 4)) = [4, 5] \<and>
   filterCondition ''region'' [''us-east-1'', ''us-west-1''] 4 =
     (''JSONExtractString(properties, ?4) IN (?5,?6)'',
      [AString ''us-east-1'', AString ''us-west-1'', AString ''region''], 7) \<and>
   placeholders (fst (filterCondition ''region'' [''us-east-1'', ''us-west-1''] 4)) = [4, 5, 6] \<and>
   fst (filterCondition ''x'' [''a'', ''b''] 4) = fst (filterCondition ''region'' [''us-east-1'', ''us-west-1''] 4)"
  using filterCondition_placeholders [of "[''gold'']" "''gold''" "''tier''" 4 "[''gold'']" "''tier''"]
        filterCondition_placeholders [of "[''us-east-1'', ''us-west-1'']" "''us-east-1''" "''region''" 4 "[''a'', ''b'']" "''x''"]
  by (auto simp: itoa.simps upt_conv_Cons simp del: upt_Suc)

subsection \<open>Reading the placeholders of composed texts\<close>

lemma readsD: "reads s ns \<Longrightarrow> t = [] \<or> \<not> is_digit (hd t) \<Longrightarrow> placeholders (s @ t) = ns @ placeholders t"
  unfolding reads_def by blast

lemma upt_glue: "[i..<i + a] @ [i + a..<i + (a + b)] = [i..<i + (a + b::nat)]"
  by (metis upt_add_eq_append le_add1 add.assoc)

lemma reads_placeholders: "reads s ns \<Longrightarrow> placeholders s = ns"
  using readsD [of s ns "[]"] by simp

lemma reads_Nil: "reads [] []"
  by (simp add: reads_def)

lemma reads_other: "c \<noteq> CHR ''?'' \<Longrightarrow> reads s ns \<Longrightarrow> reads (c # s) ns"
  by (simp add: reads_def placeholders_other)

lemma reads_lit: "CHR ''?'' \<notin> set s \<Longrightarrow> reads u ns \<Longrightarrow> reads (s @ u) ns"
  by (simp add: reads_def placeholders_lit)

lemma start_append:
  "u = [] \<or> \<not> is_digit (hd u) \<Longrightarrow> t = [] \<or> \<not> is_digit (hd t) \<Longrightarrow>
   u @ t = [] \<or> \<not> is_digit (hd (u @ t))"
  by (cases u) auto

lemma reads_ph:
  assumes "u = [] \<or> \<not> is_digit (hd u)" and "reads u ns"
  shows "reads (CHR ''?'' # itoa n @ u) (n # ns)"
  unfolding reads_def
proof (intro allI impI)
  fix t assume t: "t = [] \<or> \<not> is_digit (hd t)"
  have "placeholders (CHR ''?'' # itoa n @ (u @ t)) = n # placeholders (u @ t)"
    by (rule placeholders_ph) (rule start_append [OF assms(1) t])
  with readsD [OF assms(2) t] show "placeholders ((CHR ''?'' # itoa n @ u) @ t) = (n # ns) @ placeholders t"
    by simp
qed

lemma reads_ph_end: "reads (CHR ''?'' # itoa n) [n]"
  using reads_ph [of "[]" "[]" n] by (simp add: reads_Nil)

lemma reads_append:
  assumes "reads s ns" and "reads u ms" and "u = [] \<or> \<not> is_digit (hd u)"
  shows "reads (s @ u) (ns @ ms)"
  unfolding reads_def
proof (intro allI impI)
  fix t assume t: "t = [] \<or> \<not> is_digit (hd t)"
  have "placeholders (s @ (u @ t)) = ns @ placeholders (u @ t)"
    by (rule readsD [OF assms(1)]) (rule start_append [OF assms(3) t])
  with readsD [OF assms(2) t] show "placeholders ((s @ u) @ t) = (ns @ ms) @ placeholders t"
    by simp
qed

lemma reads_join:
  assumes sep: "CHR ''?'' \<notin> set sep" "sep \<noteq> []" "\<not> is_digit (hd sep)"
  shows "list_all2 reads cs nss \<Longrightarrow> reads (join sep cs) (concat nss)"
proof (induction cs nss rule: list_all2_induct)
  case Nil
  then show ?case by (simp add: reads_Nil)
next
  case (Cons c cs ns nss)
  show ?case
  proof (cases cs)
    case Nil
    with Cons show ?thesis by simp
  next
    case (Cons d ds)
    have "reads (sep @ join sep cs) (concat nss)"
      by (rule reads_lit [OF sep(1) Cons.IH])
    then have "reads (c @ sep @ join sep cs) (ns @ concat nss)"
      using sep by (intro reads_append Cons.hyps) auto
    with Cons show ?thesis by simp
  qed
qed

lemma reads_join_phs:
  "reads (join '','' (map (\<lambda>n. ''?'' @ itoa n) ns)) ns"
  unfolding reads_def using placeholders_join_phs by blast

lemma filterCondition_reads:
  assumes "vals \<noteq> []"
  shows "reads (fst (filterCondition property vals i)) [i..<i + length (fst (snd (filterCondition property vals i)))]"
    and "snd (snd (filterCondition property vals i)) = i + length (fst (snd (filterCondition property vals i)))"
proof -
  show "snd (snd (filterCondition property vals i)) = i + length (fst (snd (filterCondition property vals i)))"
    by (simp add: filterCondition_def)
  show "reads (fst (filterCondition property vals i)) [i..<i + length (fst (snd (filterCondition property vals i)))]"
  proof (cases "length vals = 1")
    case True
    then obtain v where "vals = [v]" by (cases vals) auto
    then show ?thesis
      using filterCondition_single_reads [of _ property v i]
      by (simp add: reads_def filterCondition_def upt_conv_Cons del: upt_Suc)
  next
    case False
    then show ?thesis
      using filterCondition_multi_reads [of _ vals property i]
      by (simp add: reads_def filterCondition_def)
  qed
qed

lemma filterLoop_reads:
  "\<exists>cs as nss. filterLoop fs conds args i = (conds @ cs, args @ as, i + length as) \<and>
     list_all2 reads cs nss \<and> concat nss = [i..<i + length as]"
proof (induction fs arbitrary: conds args i)
  case Nil
  show ?case by simp
next
  case (Cons f fs)
  obtain property vals where f: "f = (property, vals)" by (cases f)
  show ?case
  proof (cases "vals = []")
    case True
    with f Cons.IH [of conds args i] show ?thesis by simp
  next
    case False
    obtain c as j where fc: "filterCondition property vals i = (c, as, j)"
      by (cases "filterCondition property vals i")
    from filterCondition_reads [OF False, of property i] fc
    have c: "reads c [i..<i + length as]" and j: "j = i + length as" by simp_all
    from Cons.IH [of "conds @ [c]" "args @ as" j]
    obtain cs as' nss where
      loop: "filterLoop fs (conds @ [c]) (args @ as) j = ((conds @ [c]) @ cs, (args @ as) @ as', j + length as')"
      and rd: "list_all2 reads cs nss" and cc: "concat nss = [j..<j + length as']"
      by blast
    have "filterLoop (f # fs) conds args i = (conds @ (c # cs), args @ (as @ as'), i + length (as @ as'))"
      using f False fc loop j by simp
    moreover have "list_all2 reads (c # cs) ([i..<i + length as] # nss)"
      using c rd by simp
    moreover have "concat ([i..<i + length as] # nss) = [i..<i + length (as @ as')]"
      using cc j by (simp add: upt_glue add.assoc)
    ultimately show ?thesis by blast
  qed
qed

subsection \<open>The base conditions stage by stage\<close>

lemma baseConditions_stages:
  "baseConditions ctx p = (fst (baseStages ctx p), fst (snd (baseStages ctx p)))"
  unfolding baseConditions_def baseStages_def optStage_def timeStage_def filterStage_def Let_def
  by (simp only: split_beta fst_conv snd_conv if_distrib [of fst] if_distrib [of snd]
      if_distrib [of "\<lambda>x. fst (snd x)"] if_distrib [of "\<lambda>x. snd (snd x)"] prod.collapse
      one_add_one)

lemma optStage_eq:
  "optStage b lit a (c, as, i) =
     (c @ (if b then [lit @ itoa i] else []), as @ (if b then [a] else []), i + b2n b)"
  by (simp add: optStage_def b2n_def)

lemma parseTime_eq:
  "parseTimeConditionsWithIndex p i =
     ((if \<not> IsZero (StartTime p) then [''timestamp >= toDateTime64(?'' @ itoa i @ '', 3)''] else []) @
      (if \<not> IsZero (EndTime p)
       then [''timestamp < toDateTime64(?'' @ itoa (i + b2n (\<not> IsZero (StartTime p))) @ '', 3)'']
       else []),
      (if \<not> IsZero (StartTime p) then [ATime (StartTime p)] else []) @
      (if \<not> IsZero (EndTime p) then [ATime (EndTime p)] else []),
      i + b2n (\<not> IsZero (StartTime p)) + b2n (\<not> IsZero (EndTime p)))"
  by (simp add: parseTimeConditionsWithIndex_def b2n_def)

lemma timeStage_eq:
  "timeStage p (c, as, i) =
     (c @ fst (parseTimeConditionsWithIndex p i),
      as @ fst (snd (parseTimeConditionsWithIndex p i)),
      i + b2n (\<not> IsZero (StartTime p)) + b2n (\<not> IsZero (EndTime p)))"
  by (simp add: timeStage_def parseTime_eq split: prod.splits)

lemma filterLoop_acc:
  "filterLoop fs conds args i =
     (conds @ fst (filterLoop fs [] [] i),
      args @ fst (snd (filterLoop fs [] [] i)),
      snd (snd (filterLoop fs [] [] i)))"
proof (induction fs arbitrary: conds args i)
  case Nil
  show ?case by simp
next
  case (Cons f fs)
  obtain property vals where f: "f = (property, vals)" by (cases f)
  obtain c as j where fc: "filterCondition property vals i = (c, as, j)"
    by (cases "filterCondition property vals i")
  show ?case
    using Cons.IH [of "conds @ [c]" "args @ as" j] Cons.IH [of "[c]" "as" j]
          Cons.IH [of conds args i] f fc
    by simp
qed

lemma filterStage_eq:
  "filterStage fs (c, as, i) =
     (c @ fst (filterLoop fs [] [] i), as @ fst (snd (filterLoop fs [] [] i)),
      snd (snd (filterLoop fs [] [] i)))"
  unfolding filterStage_def prod.case by (rule filterLoop_acc)

lemma baseStages_eq:
  "baseStages ctx p =
     ([''event_name = ?'' @ itoa 1] @
      (if GetTenantID ctx \<noteq> [] then [''tenant_id = ?'' @ itoa 2] else []) @
      (if GetEnvironmentID ctx \<noteq> []
       then [''environment_id = ?'' @ itoa (2 + b2n (GetTenantID ctx \<noteq> []))] else []) @
      fst (parseTimeConditionsWithIndex p (timeIndex ctx)) @
      (if ExternalCustomerID p \<noteq> []
       then [''external_customer_id = ?'' @ itoa (customerIndex ctx p)] else []) @
      (if CustomerID p \<noteq> []
       then [''customer_id = ?'' @ itoa (customerIndex ctx p + b2n (ExternalCustomerID p \<noteq> []))]
       else []) @
      fst (filterLoop (Filters p) [] [] (filterIndex ctx p)),
      [AString (EventName p)] @
      (if GetTenantID ctx \<noteq> [] then [AString (GetTenantID ctx)] else []) @
      (if GetEnvironmentID ctx \<noteq> [] then [AString (GetEnvironmentID ctx)] else []) @
      fst (snd (parseTimeConditionsWithIndex p (timeIndex ctx))) @
      (if ExternalCustomerID p \<noteq> [] then [AString (ExternalCustomerID p)] else []) @
      (if CustomerID p \<noteq> [] then [AString (CustomerID p)] else []) @
      fst (snd (filterLoop (Filters p) [] [] (filterIndex ctx p))),
      snd (snd (filterLoop (Filters p) [] [] (filterIndex ctx p))))"
  unfolding baseStages_def optStage_eq timeStage_eq filterStage_eq
    timeIndex_def customerIndex_def filterIndex_def
  by (simp only: append_assoc)

subsection \<open>Numbering of the base fragment\<close>

lemma join_append:
  "xs \<noteq> [] \<Longrightarrow> ys \<noteq> [] \<Longrightarrow> join sep (xs @ ys) = join sep xs @ sep @ join sep ys"
proof (induction sep xs rule: join.induct)
  case (2 sep x)
  then show ?case by (cases ys) auto
qed auto

lemma upt_glue1: "1 \<le> i \<Longrightarrow> [1..<i] @ [i..<i + n] = [1..<i + n]"
  by (metis upt_add_eq_append)

lemma numbered_append:
  assumes "numbered (c, as, i)" and "list_all2 reads cs nss" and "concat nss = [i..<i + length as']"
  shows "numbered (c @ cs, as @ as', i + length as')"
proof (cases "cs = []")
  case True
  with assms(2) have "nss = []" by simp
  with assms(3) have "[i..<i + length as'] = []" by simp
  then have "length as' = 0" by auto
  with True assms(1) show ?thesis by (simp del: upt_Suc)
next
  case False
  from assms(1) have c: "c \<noteq> []" and i: "i = Suc (length as)"
    and r: "reads (join '' AND '' c) [1..<i]"
    by (auto simp: numbered_def simp del: upt_Suc)
  have "reads (join '' AND '' cs) [i..<i + length as']"
    using reads_join [of "'' AND ''" cs nss] assms(2,3) by (simp add: is_digit_def)
  then have "reads ('' AND '' @ join '' AND '' cs) [i..<i + length as']"
    by (intro reads_lit) simp_all
  with r have R: "reads (join '' AND '' c @ '' AND '' @ join '' AND '' cs) ([1..<i] @ [i..<i + length as'])"
    by (intro reads_append) (simp_all add: is_digit_def)
  have e: "[1..<i] @ [i..<i + length as'] = [1..<i + length as']"
    using i by (intro upt_glue1) simp
  have j: "join '' AND '' (c @ cs) = join '' AND '' c @ '' AND '' @ join '' AND '' cs"
    using c False by (rule join_append)
  from R have "reads (join '' AND '' (c @ cs)) [1..<i + length as']"
    by (simp only: e j)
  with c i show ?thesis by (simp add: numbered_def del: upt_Suc)
qed

lemma numbered_optStage:
  assumes "numbered s" and "\<And>i. reads (lit @ itoa i) [i]"
  shows "numbered (optStage b lit a s)"
proof -
  obtain c as i where s: "s = (c, as, i)" by (cases s)
  show ?thesis
  proof (cases b)
    case True
    have "numbered (c @ [lit @ itoa i], as @ [a], i + length [a])"
      using assms s by (intro numbered_append [where nss = "[[i]]"]) simp_all
    with True s show ?thesis by (simp add: optStage_def)
  next
    case False
    with assms s show ?thesis by (simp add: optStage_def)
  qed
qed

lemma parseTime_reads:
  "\<exists>nss. list_all2 reads (fst (parseTimeConditionsWithIndex p i)) nss \<and>
     concat nss = [i..<i + length (fst (snd (parseTimeConditionsWithIndex p i)))]"
proof -
  have r: "reads (''timestamp >= toDateTime64(?'' @ itoa k @ '', 3)'') [k]"
          "reads (''timestamp < toDateTime64(?'' @ itoa k @ '', 3)'') [k]" for k
    by (simp_all add: reads_def ph_simps is_digit_def)
  let ?s = "\<not> IsZero (StartTime p)" and ?e = "\<not> IsZero (EndTime p)"
  let ?nss = "(if ?s then [[i]] else []) @ (if ?e then [[i + b2n ?s]] else [])"
  have "list_all2 reads (fst (parseTimeConditionsWithIndex p i)) ?nss"
    using r by (simp add: parseTime_eq)
  moreover have "concat ?nss = [i..<i + length (fst (snd (parseTimeConditionsWithIndex p i)))]"
    by (simp add: parseTime_eq b2n_def upt_conv_Cons del: upt_Suc)
  ultimately show ?thesis by blast
qed

lemma parseTime_next:
  "snd (snd (parseTimeConditionsWithIndex p i)) = i + length (fst (snd (parseTimeConditionsWithIndex p i)))"
  by (simp add: parseTime_eq b2n_def)

lemma numbered_timeStage:
  assumes "numbered s"
  shows "numbered (timeStage p s)"
proof -
  obtain c as i where s: "s = (c, as, i)" by (cases s)
  obtain nss where "list_all2 reads (fst (parseTimeConditionsWithIndex p i)) nss"
    and "concat nss = [i..<i + length (fst (snd (parseTimeConditionsWithIndex p i)))]"
    using parseTime_reads by blast
  with assms s
  have "numbered (c @ fst (parseTimeConditionsWithIndex p i),
                  as @ fst (snd (parseTimeConditionsWithIndex p i)),
                  i + length (fst (snd (parseTimeConditionsWithIndex p i))))"
    by (intro numbered_append) simp_all
  with s show ?thesis
    using parseTime_next [of p i] by (auto simp: timeStage_def split: prod.splits)
qed

lemma numbered_filterStage:
  assumes "numbered s"
  shows "numbered (filterStage fs s)"
proof -
  obtain c as i where s: "s = (c, as, i)" by (cases s)
  obtain cs as' nss where "filterLoop fs c as i = (c @ cs, as @ as', i + length as')"
    and "list_all2 reads cs nss" and "concat nss = [i..<i + length as']"
    using filterLoop_reads by blast
  with assms s show ?thesis
    using numbered_append [of c as i cs nss as'] by (simp add: filterStage_def)
qed

lemma numbered_baseStages: "numbered (baseStages ctx p)"
proof -
  have init: "numbered ([''event_name = ?'' @ itoa 1], [AString (EventName p)], 2)"
    by (simp add: numbered_def reads_def ph_simps numeral_2_eq_2)
  have lits: "reads (''tenant_id = ?'' @ itoa i) [i]"
             "reads (''environment_id = ?'' @ itoa i) [i]"
             "reads (''external_customer_id = ?'' @ itoa i) [i]"
             "reads (''customer_id = ?'' @ itoa i) [i]" for i
    by (simp_all add: reads_def ph_simps)
  show ?thesis
    unfolding baseStages_def
    by (intro numbered_filterStage numbered_optStage numbered_timeStage init lits)
qed

lemma baseConditions_reads:
  "reads (join '' AND '' (fst (baseConditions ctx p))) [1..<Suc (length (snd (baseConditions ctx p)))]"
  using numbered_baseStages [of ctx p]
  by (cases "baseStages ctx p") (simp add: numbered_def baseConditions_stages del: upt_Suc)

subsection \<open>Numbering of the filter-group fragment\<close>

lemma group_text_reads:
  assumes "list_all2 reads cs nss" and "concat nss = [i..<j]"
  shows "reads (''(?'' @ itoa j @ '', ?'' @ itoa (j + 1) @ '', ('' @ join '' AND '' cs @ ''))'') ([j, j + 1] @ [i..<j])"
proof -
  have r0: "reads (join '' AND '' cs) [i..<j]"
    using reads_join [of "'' AND ''" cs nss] assms by (simp add: is_digit_def)
  have r1: "reads ''))'' []"
    by (simp add: reads_def placeholders_other)
  have r2: "reads (join '' AND '' cs @ ''))'') ([i..<j] @ [])"
    by (rule reads_append [OF r0 r1]) (simp add: is_digit_def)
  have r3: "reads ('', ('' @ join '' AND '' cs @ ''))'') ([i..<j] @ [])"
    by (rule reads_lit [OF _ r2]) simp
  have r4: "reads (CHR ''?'' # itoa (j + 1) @ '', ('' @ join '' AND '' cs @ ''))'') ((j + 1) # [i..<j] @ [])"
    by (rule reads_ph [OF _ r3]) (simp add: is_digit_def)
  have r5: "reads ('', '' @ CHR ''?'' # itoa (j + 1) @ '', ('' @ join '' AND '' cs @ ''))'') ((j + 1) # [i..<j] @ [])"
    by (rule reads_lit [OF _ r4]) simp
  have r6: "reads (CHR ''?'' # itoa j @ '', '' @ CHR ''?'' # itoa (j + 1) @ '', ('' @ join '' AND '' cs @ ''))'')
               (j # (j + 1) # [i..<j] @ [])"
    by (rule reads_ph [OF _ r5]) (simp add: is_digit_def)
  have "reads (CHR ''('' # CHR ''?'' # itoa j @ '', '' @ CHR ''?'' # itoa (j + 1) @ '', ('' @ join '' AND '' cs @ ''))'')
               (j # (j + 1) # [i..<j] @ [])"
    by (rule reads_other [OF _ r6]) simp
  then show ?thesis by simp
qed

lemma group_true_reads:
  "reads (''(?'' @ itoa j @ '', ?'' @ itoa (j + 1) @ '', 1)'') [j, j + 1]"
  by (simp add: reads_def ph_simps is_digit_def)

lemma mset_group_numbers: "i \<le> j \<Longrightarrow> mset ([j, j + 1] @ [i..<j]) = mset [i..<j + 2]"
proof -
  assume "i \<le> j"
  then have "[i..<j + 2] = [i..<j] @ [j..<j + 2]"
    by (rule upt_add_eq_append)
  moreover have "[j..<j + 2] = [j, j + 1]"
    by (simp add: upt_conv_Cons del: upt_Suc)
  ultimately show ?thesis by simp
qed

lemma groupLoop_reads:
  "\<exists>cs as nss. groupLoop gs fc aa i = (fc @ cs, aa @ as, i + length as) \<and>
     list_all2 reads cs nss \<and> mset (concat nss) = mset [i..<i + length as]"
proof (induction gs arbitrary: fc aa i)
  case Nil
  show ?case by simp
next
  case (Cons g gs)
  obtain cs' as' nss' where
    fl: "filterLoop (GroupFilters g) [] [] i = (cs', as', i + length as')"
    and rd: "list_all2 reads cs' nss'" and cc: "concat nss' = [i..<i + length as']"
    using filterLoop_reads [of "GroupFilters g" "[]" "[]" i] by auto
  define j where "j = i + length as'"
  define gtext where "gtext =
    (if length cs' > 0
     then ''(?'' @ itoa j @ '', ?'' @ itoa (j + 1) @ '', ('' @ join '' AND '' cs' @ ''))''
     else ''(?'' @ itoa j @ '', ?'' @ itoa (j + 1) @ '', 1)'')"
  define gas where "gas = [AString (ID g), AInt (Priority g)] @ (if length cs' > 0 then as' else [])"
  have empty: "as' = []" if "cs' = []"
  proof -
    from that rd have "nss' = []" by simp
    with cc have "[i..<i + length as'] = []" by simp
    then show "as' = []" by auto
  qed
  have len: "length gas = length as' + 2"
  proof (cases "cs' = []")
    case True
    then show ?thesis using empty by (simp add: gas_def)
  next
    case False
    then show ?thesis by (simp add: gas_def)
  qed
  have step: "groupLoop (g # gs) fc aa i = groupLoop gs (fc @ [gtext]) (aa @ gas) (j + 2)"
    using fl by (simp add: gtext_def gas_def j_def Let_def)
  have tr: "reads gtext ([j, j + 1] @ [i..<j])"
  proof (cases "cs' = []")
    case False
    have "concat nss' = [i..<j]" using cc by (simp add: j_def)
    from group_text_reads [OF rd this] False show ?thesis
      by (simp add: gtext_def)
  next
    case True
    then have "as' = []" using empty by simp
    then have "j = i" by (simp add: j_def)
    with True group_true_reads [of j] show ?thesis
      by (simp add: gtext_def)
  qed
  obtain cs as nss where
    loop: "groupLoop gs (fc @ [gtext]) (aa @ gas) (j + 2) = ((fc @ [gtext]) @ cs, (aa @ gas) @ as, j + 2 + length as)"
    and rds: "list_all2 reads cs nss" and ms: "mset (concat nss) = mset [j + 2..<j + 2 + length as]"
    using Cons.IH [of "fc @ [gtext]" "aa @ gas" "j + 2"] by blast
  have idx: "j + 2 + length as = i + length (gas @ as)"
    using len by (simp add: j_def)
  have res: "groupLoop (g # gs) fc aa i = (fc @ (gtext # cs), aa @ (gas @ as), i + length (gas @ as))"
    using step loop idx by simp
  have all: "list_all2 reads (gtext # cs) (([j, j + 1] @ [i..<j]) # nss)"
    using tr rds by simp
  have "i \<le> j" by (simp add: j_def)
  then have a: "mset ([j, j + 1] @ [i..<j]) = mset [i..<j + 2]"
    by (rule mset_group_numbers)
  have "[i..<j + 2 + length as] = [i..<j + 2] @ [j + 2..<j + 2 + length as]"
    using \<open>i \<le> j\<close> by (intro upt_add_eq_append) simp
  then have b: "mset [i..<j + 2 + length as] = mset [i..<j + 2] + mset [j + 2..<j + 2 + length as]"
    by simp
  have "mset (concat (([j, j + 1] @ [i..<j]) # nss)) = mset ([j, j + 1] @ [i..<j]) + mset (concat nss)"
    by simp
  also have "\<dots> = mset [i..<j + 2 + length as]"
    by (simp only: a ms b)
  finally have m: "mset (concat (([j, j + 1] @ [i..<j]) # nss)) = mset [i..<i + length (gas @ as)]"
    by (simp only: idx)
  from res all m show ?case by blast
qed

subsection \<open>The fragments of the statement\<close>

lemma set_split: "p \<in> set (split sep s) \<Longrightarrow> set p \<subseteq> set s"
proof (induction s arbitrary: p)
  case Nil
  then show ?case by simp
next
  case (Cons c cs)
  show ?case
  proof (cases "c = sep")
    case True
    with Cons.prems have "p = [] \<or> p \<in> set (split sep cs)" by simp
    with Cons.IH [of p] show ?thesis by auto
  next
    case False
    show ?thesis
    proof (cases "split sep cs")
      case Nil
      with Cons.prems False show ?thesis by simp
    next
      case (Cons q qs)
      with Cons.prems False have "p = c # q \<or> p \<in> set qs" by simp
      moreover have "set q \<subseteq> set cs" using Cons.IH [of q] Cons by simp
      moreover have "p \<in> set qs \<Longrightarrow> set p \<subseteq> set cs" using Cons.IH [of p] Cons by simp
      ultimately show ?thesis by auto
    qed
  qed
qed

lemma set_TrimSpace: "set (TrimSpace s) \<subseteq> set s"
proof -
  have "set (dropWhile is_space (rev (dropWhile is_space s))) \<subseteq> set (rev (dropWhile is_space s))"
    by (rule set_dropWhileD [THEN subsetI])
  also have "\<dots> \<subseteq> set s"
    using set_dropWhileD [of _ is_space s] by auto
  finally show ?thesis by (simp add: TrimSpace_def)
qed

lemma set_TrimPrefix: "set (TrimPrefix s p) \<subseteq> set s"
  by (simp add: TrimPrefix_def set_drop_subset)

lemma matchedComponents_args: "c \<in> set (matchedComponents i pieces) \<Longrightarrow> CArgs c = []"
  by (induction pieces arbitrary: i) (auto simp: Let_def split: if_splits)

lemma matchedComponents_text:
  "c \<in> set (matchedComponents i pieces) \<Longrightarrow> \<exists>piece \<in> set pieces. set (CQuery c) \<subseteq> set piece"
proof (induction pieces arbitrary: i)
  case Nil
  then show ?case by simp
next
  case (Cons x xs)
  define Q where "Q = (if i = 0 then TrimPrefix (TrimSpace x) ''matched_events AS (''
                       else TrimSpace (TrimSpace x))"
  have "set Q \<subseteq> set x"
    using set_TrimPrefix [of "TrimSpace x" "''matched_events AS (''"] set_TrimSpace [of x]
          set_TrimSpace [of "TrimSpace x"]
    unfolding Q_def by (cases "i = 0") auto
  moreover have "CQuery c = Q \<or> c \<in> set (matchedComponents (i + 1) xs)"
    using Cons.prems unfolding Q_def by (auto simp: Let_def split: if_splits)
  ultimately show ?case
    using Cons.IH [of "i + 1"] by auto
qed

lemma matchedComponents_props:
  "c \<in> set (matchedComponents i pieces) \<Longrightarrow>
   CArgs c = [] \<and> (\<exists>piece \<in> set pieces. set (CQuery c) \<subseteq> set piece)"
  using matchedComponents_args matchedComponents_text by blast

lemma qmark_notin_matchedQueryText: "CHR ''?'' \<notin> set matchedQueryText"
  by (simp add: matchedQueryText_def)

lemma matched_reads:
  assumes "c \<in> set (matchedComponents 0 (split (CHR '','') matchedQueryText))"
  shows "CArgs c = []" and "reads (CQuery c) []"
proof -
  from matchedComponents_props [OF assms]
  obtain piece where c: "CArgs c = []" and p: "piece \<in> set (split (CHR '','') matchedQueryText)"
    and s: "set (CQuery c) \<subseteq> set piece"
    by blast
  from set_split [OF p] s qmark_notin_matchedQueryText have "CHR ''?'' \<notin> set (CQuery c)"
    by blast
  then have "reads (CQuery c @ []) []"
    by (rule reads_lit) (rule reads_Nil)
  then show "reads (CQuery c) []" by simp
  show "CArgs c = []" by (rule c)
qed

lemma baseText_reads:
  assumes "reads w ns"
  shows "reads (baseText w) ns"
proof -
  let ?tail = "'' ORDER BY '' @ getDeduplicationKey @ '' DESC'' @ [nl, tab, tab, tab] @
     '')'' @ [nl, tab, tab] @ '')''"
  have t: "reads ?tail []"
    using reads_lit [of ?tail "[]" "[]"] by (simp add: reads_Nil getDeduplicationKey_def)
  have "reads (w @ ?tail) (ns @ [])"
    by (rule reads_append [OF assms t]) (simp add: is_digit_def)
  then have "reads ((''base_events AS ('' @ [nl, tab, tab, tab] @
     ''SELECT * FROM ('' @ [nl, tab, tab, tab, tab] @
     ''SELECT DISTINCT ON ('' @ getDeduplicationKey @ '') * FROM events WHERE '') @ w @ ?tail) (ns @ [])"
    by (rule reads_lit [rotated]) (simp add: getDeduplicationKey_def)
  then show ?thesis by (simp add: baseText_def)
qed

lemma filterText_reads:
  assumes "reads w ns"
  shows "reads (filterText w) ns"
proof -
  let ?tail = "'']) as group_matches'' @ [nl, tab, tab] @ ''FROM base_events'' @ [nl, tab] @ '')''"
  have t: "reads ?tail []"
    using reads_lit [of ?tail "[]" "[]"] by (simp add: reads_Nil)
  have "reads (w @ ?tail) (ns @ [])"
    by (rule reads_append [OF assms t]) (simp add: is_digit_def)
  then have "reads ((''filter_matches AS ('' @ [nl, tab, tab] @
     ''SELECT '' @ [nl, tab, tab, tab] @
     ''id,'' @ [nl, tab, tab, tab] @
     ''timestamp,'' @ [nl, tab, tab, tab] @
     ''properties,'' @ [nl, tab, tab, tab] @
     ''arrayMap(x -> ('' @ [nl, tab, tab, tab, tab] @
     ''x.1,'' @ [nl, tab, tab, tab, tab] @
     ''x.2,'' @ [nl, tab, tab, tab, tab] @
     ''x.3'' @ [nl, tab, tab, tab] @
     ''), ['') @ w @ ?tail) (ns @ [])"
    by (rule reads_lit [rotated]) simp
  then show ?thesis by (simp add: filterText_def)
qed

lemma aggClause_reads:
  "reads (fst (aggClause aggType propertyName)) [1..<Suc (length (snd (aggClause aggType propertyName)))]"
  by (cases aggType) (simp_all add: aggClause_def reads_def ph_simps is_digit_def)

lemma reads_all_empty:
  "(\<And>x. x \<in> set xs \<Longrightarrow> reads x []) \<Longrightarrow> list_all2 reads xs (replicate (length xs) [])"
  by (induction xs) auto

lemma concat_replicate_Nil: "concat (replicate n []) = []"
  by (induction n) auto

lemma finalText_reads:
  assumes "reads clause ns"
  shows "reads (''SELECT best_match_group as filter_group_id, '' @ clause @
                '' as value FROM best_matches GROUP BY best_match_group ORDER BY best_match_group'') ns"
proof -
  let ?tail = "'' as value FROM best_matches GROUP BY best_match_group ORDER BY best_match_group''"
  have t: "reads ?tail []"
    using reads_lit [of ?tail "[]" "[]"] by (simp add: reads_Nil)
  have "reads (clause @ ?tail) (ns @ [])"
    by (rule reads_append [OF assms t]) (simp add: is_digit_def)
  then have "reads (''SELECT best_match_group as filter_group_id, '' @ clause @ ?tail) (ns @ [])"
    by (rule reads_lit [rotated]) simp
  then show ?thesis by simp
qed

lemma statement_reads:
  assumes "list_all2 reads parts nss" and "reads final ns"
  shows "reads (''WITH '' @ join ('','' @ [nl]) parts @ [nl] @ final) (concat nss @ ns)"
proof -
  have j: "reads (join ('','' @ [nl]) parts) (concat nss)"
    using assms(1) by (intro reads_join) (simp_all add: is_digit_def)
  have f: "reads ([nl] @ final) ns"
    by (rule reads_lit [OF _ assms(2)]) simp
  have "reads (join ('','' @ [nl]) parts @ [nl] @ final) (concat nss @ ns)"
    by (rule reads_append [OF j f]) (simp add: is_digit_def)
  then show ?thesis
    by (rule reads_lit [rotated]) simp
qed

lemma staged_base:
  "baseQuery (staged ctx p groups aggType propertyName) =
     \<lparr>Query = baseText (join '' AND '' (fst (baseConditions ctx p))), Args = snd (baseConditions ctx p)\<rparr>"
  by (simp add: staged_def WithAggregation_def WithFilterGroups_def WithBaseFilters_def Let_def
      split: prod.splits)

lemma staged_final:
  "finalQuery (staged ctx p groups aggType propertyName) =
     \<lparr>Query = ''SELECT best_match_group as filter_group_id, '' @ fst (aggClause aggType propertyName) @
              '' as value FROM best_matches GROUP BY best_match_group ORDER BY best_match_group'',
      Args = snd (aggClause aggType propertyName)\<rparr>"
  by (simp add: staged_def WithAggregation_def Let_def split: prod.splits)

lemma staged_filter_Nil:
  "filterQuery (staged ctx p [] aggType propertyName) = \<lparr>Query = [], Args = []\<rparr>"
  by (simp add: staged_def WithAggregation_def WithFilterGroups_def WithBaseFilters_def
      NewQueryBuilder_def Let_def split: prod.splits)

lemma staged_filter:
  "groups \<noteq> [] \<Longrightarrow>
   filterQuery (staged ctx p groups aggType propertyName) =
     \<lparr>Query = filterText (join ('','' @ [nl, tab, tab, tab]) (fst (groupLoop groups [] [] 1))),
      Args = fst (snd (groupLoop groups [] [] 1))\<rparr>"
  by (simp add: staged_def WithAggregation_def WithFilterGroups_def Let_def split: prod.splits)

lemma staged_components_Nil:
  "cteComponents (staged ctx p [] aggType propertyName) =
     [\<lparr>Name = ''base_events'', CQuery = Query (baseQuery (staged ctx p [] aggType propertyName)),
       CArgs = Args (baseQuery (staged ctx p [] aggType propertyName))\<rparr>]"
  by (simp add: staged_def WithAggregation_def WithFilterGroups_def WithBaseFilters_def
      NewQueryBuilder_def Let_def split: prod.splits)

lemma staged_components:
  "groups \<noteq> [] \<Longrightarrow>
   cteComponents (staged ctx p groups aggType propertyName) =
     [\<lparr>Name = ''base_events'', CQuery = Query (baseQuery (staged ctx p groups aggType propertyName)),
       CArgs = Args (baseQuery (staged ctx p groups aggType propertyName))\<rparr>,
      \<lparr>Name = ''filter_matches'', CQuery = Query (filterQuery (staged ctx p groups aggType propertyName)),
       CArgs = Args (filterQuery (staged ctx p groups aggType propertyName))\<rparr>] @
     matchedComponents 0 (split (CHR '','') matchedQueryText)"
  by (simp add: staged_def WithAggregation_def WithFilterGroups_def WithBaseFilters_def
      NewQueryBuilder_def Let_def split: prod.splits)

lemma base_fragment_reads:
  "reads (Query (baseQuery (staged ctx p groups aggType propertyName)))
         [1..<Suc (length (Args (baseQuery (staged ctx p groups aggType propertyName))))]"
  unfolding staged_base ParameterizedQuery.select_convs
  by (rule baseText_reads) (rule baseConditions_reads)

lemma final_fragment_reads:
  "reads (Query (finalQuery (staged ctx p groups aggType propertyName)))
         [1..<Suc (length (Args (finalQuery (staged ctx p groups aggType propertyName))))]"
  unfolding staged_final ParameterizedQuery.select_convs
  by (rule finalText_reads) (rule aggClause_reads)

lemma filter_fragment_reads:
  "\<exists>ns. reads (Query (filterQuery (staged ctx p groups aggType propertyName))) ns \<and>
        mset ns = mset [1..<Suc (length (Args (filterQuery (staged ctx p groups aggType propertyName))))]"
proof (cases "groups = []")
  case True
  then show ?thesis by (simp add: staged_filter_Nil reads_Nil)
next
  case False
  obtain cs as nss where g: "groupLoop groups [] [] 1 = ([] @ cs, [] @ as, 1 + length as)"
    and r: "list_all2 reads cs nss" and m: "mset (concat nss) = mset [1..<1 + length as]"
    using groupLoop_reads [of groups "[]" "[]" 1] by blast
  have "reads (join ('','' @ [nl, tab, tab, tab]) cs) (concat nss)"
    using r by (intro reads_join) (simp_all add: is_digit_def)
  then have "reads (filterText (join ('','' @ [nl, tab, tab, tab]) cs)) (concat nss)"
    by (rule filterText_reads)
  with False g m show ?thesis
    by (auto simp: staged_filter simp del: upt_Suc)
qed

text \<open>
  Claim C1, as the code has it. For every output of \<^verbatim>\<open>Build\<close> after the three stages, the
  number of placeholders in the statement equals the length of the argument list, and the
  argument list is the concatenation of the argument lists of the base fragment, of the
  \<^verbatim>\<open>filter_matches\<close> fragment and of the final \<^verbatim>\<open>SELECT\<close>. The numbering restarts at 1 in each
  of the three: in the base fragment the placeholders are \<open>1..n\<close> in the order of the text,
  the \<^verbatim>\<open>filter_matches\<close> fragment uses each of \<open>1..m\<close> exactly once, and the final
  \<^verbatim>\<open>SELECT\<close> has \<open>?1\<close> or no placeholder, where \<open>n\<close>, \<open>m\<close> and the last count are the
  lengths of the fragments' own argument lists.
\<close>

theorem Build_placeholders:
  "let qb = staged ctx p groups aggType propertyName;
       base = baseQuery qb; filt = filterQuery qb; final = finalQuery qb
   in compile ctx p groups aggType propertyName = Build qb \<and>
      snd (Build qb) = Args base @ Args filt @ Args final \<and>
      placeholders (fst (Build qb)) =
        placeholders (Query base) @ placeholders (Query filt) @ placeholders (Query final) \<and>
      placeholders (Query base) = [1..<Suc (length (Args base))] \<and>
      mset (placeholders (Query filt)) = mset [1..<Suc (length (Args filt))] \<and>
      placeholders (Query final) = [1..<Suc (length (Args final))] \<and>
      length (placeholders (fst (Build qb))) = length (snd (Build qb))"
proof -
  define qb where "qb = staged ctx p groups aggType propertyName"
  obtain fns where rf: "reads (Query (filterQuery qb)) fns"
    and mf: "mset fns = mset [1..<Suc (length (Args (filterQuery qb)))]"
    using filter_fragment_reads [of ctx p groups aggType propertyName] unfolding qb_def by blast
  have rb: "reads (Query (baseQuery qb)) [1..<Suc (length (Args (baseQuery qb)))]"
    unfolding qb_def by (rule base_fragment_reads)
  have rl: "reads (Query (finalQuery qb)) [1..<Suc (length (Args (finalQuery qb)))]"
    unfolding qb_def by (rule final_fragment_reads)
  note pb = reads_placeholders [OF rb]
  note pf = reads_placeholders [OF rf]
  note pl = reads_placeholders [OF rl]
  have parts: "\<exists>nss. list_all2 reads (map CQuery (cteComponents qb)) nss \<and>
                 concat nss = placeholders (Query (baseQuery qb)) @ placeholders (Query (filterQuery qb))"
    and args: "concat (map CArgs (cteComponents qb)) = Args (baseQuery qb) @ Args (filterQuery qb)"
  proof -
    show "\<exists>nss. list_all2 reads (map CQuery (cteComponents qb)) nss \<and>
                 concat nss = placeholders (Query (baseQuery qb)) @ placeholders (Query (filterQuery qb))"
    proof (cases "groups = []")
      case True
      have "list_all2 reads (map CQuery (cteComponents qb)) [[1..<Suc (length (Args (baseQuery qb)))]]"
        using rb True unfolding qb_def by (simp add: staged_components_Nil del: upt_Suc)
      moreover have "placeholders (Query (filterQuery qb)) = []"
        using True unfolding qb_def by (simp add: staged_filter_Nil)
      ultimately show ?thesis
        using pb by (intro exI [of _ "[[1..<Suc (length (Args (baseQuery qb)))]]"]) (simp del: upt_Suc)
    next
      case False
      let ?m = "map CQuery (matchedComponents 0 (split (CHR '','') matchedQueryText))"
      have "list_all2 reads ?m (replicate (length ?m) [])"
        by (rule reads_all_empty) (auto simp: matched_reads)
      then have "list_all2 reads (map CQuery (cteComponents qb))
                   ([[1..<Suc (length (Args (baseQuery qb)))], fns] @ replicate (length ?m) [])"
        using rb rf False unfolding qb_def by (simp add: staged_components del: upt_Suc)
      then show ?thesis
        using pb pf
        by (intro exI [of _ "[[1..<Suc (length (Args (baseQuery qb)))], fns] @ replicate (length ?m) []"])
           (simp add: concat_replicate_Nil del: upt_Suc)
    qed
    show "concat (map CArgs (cteComponents qb)) = Args (baseQuery qb) @ Args (filterQuery qb)"
    proof (cases "groups = []")
      case True
      then show ?thesis
        unfolding qb_def by (simp add: staged_components_Nil staged_filter_Nil)
    next
      case False
      have "concat (map CArgs (matchedComponents 0 (split (CHR '','') matchedQueryText))) = []"
        by (simp add: matched_reads)
      with False show ?thesis
        unfolding qb_def by (simp add: staged_components)
    qed
  qed
  from parts obtain nss where
    lr: "list_all2 reads (map CQuery (cteComponents qb)) nss"
    and cn: "concat nss = placeholders (Query (baseQuery qb)) @ placeholders (Query (filterQuery qb))"
    by blast
  have "reads (fst (Build qb)) (concat nss @ [1..<Suc (length (Args (finalQuery qb)))])"
    using statement_reads [OF lr rl] by (simp add: Build_def Let_def)
  then have tx: "placeholders (fst (Build qb)) =
      placeholders (Query (baseQuery qb)) @ placeholders (Query (filterQuery qb)) @
      placeholders (Query (finalQuery qb))"
    using cn pl by (simp add: reads_placeholders del: upt_Suc)
  have bargs: "snd (Build qb) = Args (baseQuery qb) @ Args (filterQuery qb) @ Args (finalQuery qb)"
    using args by (simp add: Build_def Let_def)
  have "length fns = length (Args (filterQuery qb))"
    using mf by (metis diff_Suc_1 length_upt size_mset)
  then have len: "length (placeholders (fst (Build qb))) = length (snd (Build qb))"
    using tx bargs pb pf pl by (simp del: upt_Suc)
  have c: "compile ctx p groups aggType propertyName = Build qb"
    by (simp add: compile_def staged_def qb_def)
  from c bargs tx pb pf pl mf len show ?thesis
    unfolding Let_def qb_def [symmetric] by (simp del: upt_Suc)
qed

subsection \<open>The text depends on the shape of the input only\<close>

lemma filterCondition_shape:
  "length vals = length vals' \<Longrightarrow>
   fst (filterCondition property vals i) = fst (filterCondition property' vals' i) \<and>
   snd (snd (filterCondition property vals i)) = snd (snd (filterCondition property' vals' i))"
  by (simp add: filterCondition_def)

lemma filterLoop_Cons:
  "filterLoop ((property, vals) # rest) [] [] i =
     (if vals = [] then filterLoop rest [] [] i
      else (fst (filterCondition property vals i) #
              fst (filterLoop rest [] [] (snd (snd (filterCondition property vals i)))),
            fst (snd (filterCondition property vals i)) @
              fst (snd (filterLoop rest [] [] (snd (snd (filterCondition property vals i))))),
            snd (snd (filterLoop rest [] [] (snd (snd (filterCondition property vals i)))))))"
proof (cases "vals = []")
  case True
  then show ?thesis by simp
next
  case False
  obtain c as j where fc: "filterCondition property vals i = (c, as, j)"
    by (cases "filterCondition property vals i")
  show ?thesis
    using False fc filterLoop_acc [of rest "[c]" as j] by simp
qed

lemma filterLoop_shape:
  "filtersShape fs = filtersShape fs' \<Longrightarrow>
   fst (filterLoop fs [] [] i) = fst (filterLoop fs' [] [] i) \<and>
   snd (snd (filterLoop fs [] [] i)) = snd (snd (filterLoop fs' [] [] i))"
proof (induction fs arbitrary: fs' i)
  case Nil
  then show ?case by (simp add: filtersShape_def)
next
  case (Cons f fs)
  from Cons.prems obtain f' rest' where fs': "fs' = f' # rest'"
    and l: "length (snd f) = length (snd f')" and s: "filtersShape fs = filtersShape rest'"
    by (cases fs') (auto simp: filtersShape_def)
  obtain property vals where f: "f = (property, vals)" by (cases f)
  obtain property' vals' where f': "f' = (property', vals')" by (cases f')
  from l f f' have lv: "length vals = length vals'" by simp
  note fc = filterCondition_shape [OF lv, of property i property']
  show ?case
  proof (cases "vals = []")
    case True
    with lv have "vals' = []" by simp
    with True Cons.IH [OF s, of i] f f' fs' show ?thesis by simp
  next
    case False
    with lv have "vals' \<noteq> []" by auto
    with False fc Cons.IH [OF s, of "snd (snd (filterCondition property vals i))"] f f' fs'
    show ?thesis by (simp only: filterLoop_Cons) simp
  qed
qed

lemma filterLoop_args:
  "AString ` set (filterStrings fs) \<subseteq> set (fst (snd (filterLoop fs [] [] i)))"
proof (induction fs arbitrary: i)
  case Nil
  show ?case by (simp add: filterStrings_def)
next
  case (Cons f fs)
  obtain property vals where f: "f = (property, vals)" by (cases f)
  have fs: "filterStrings ((property, vals) # fs) = (if vals = [] then [] else property # vals) @ filterStrings fs"
    by (simp add: filterStrings_def)
  show ?case
  proof (cases "vals = []")
    case True
    with Cons.IH [of i] f fs show ?thesis by simp
  next
    case False
    have "AString ` set (property # vals) \<subseteq> set (fst (snd (filterCondition property vals i)))"
    proof (cases "length vals = 1")
      case True
      then obtain v where "vals = [v]" by (cases vals) auto
      then show ?thesis by (simp add: filterCondition_def)
    next
      case False
      then show ?thesis by (auto simp: filterCondition_def)
    qed
    with False Cons.IH [of "snd (snd (filterCondition property vals i))"] show ?thesis
      unfolding f fs filterLoop_Cons by auto
  qed
qed

lemma groupLoop_shape:
  "map (\<lambda>g. filtersShape (GroupFilters g)) gs = map (\<lambda>g. filtersShape (GroupFilters g)) gs' \<Longrightarrow>
   fst (groupLoop gs fc aa i) = fst (groupLoop gs' fc aa' i) \<and>
   snd (snd (groupLoop gs fc aa i)) = snd (snd (groupLoop gs' fc aa' i))"
proof (induction gs arbitrary: gs' fc aa aa' i)
  case Nil
  then show ?case by simp
next
  case (Cons g gs)
  from Cons.prems obtain g' rest' where gs': "gs' = g' # rest'"
    and s: "filtersShape (GroupFilters g) = filtersShape (GroupFilters g')"
    and r: "map (\<lambda>g. filtersShape (GroupFilters g)) gs = map (\<lambda>g. filtersShape (GroupFilters g)) rest'"
    by (cases gs') auto
  obtain c as j where fl: "filterLoop (GroupFilters g) [] [] i = (c, as, j)"
    by (cases "filterLoop (GroupFilters g) [] [] i")
  obtain c' as' j' where fl': "filterLoop (GroupFilters g') [] [] i = (c', as', j')"
    by (cases "filterLoop (GroupFilters g') [] [] i")
  from filterLoop_shape [OF s, of i] fl fl' have e: "c' = c" "j' = j" by simp_all
  show ?case
    unfolding gs' using fl fl' e Cons.IH [OF r] by (simp add: Let_def)
qed

lemma groupLoop_args:
  "set aa \<union> AString ` set (concat (map (\<lambda>g. ID g # filterStrings (GroupFilters g)) gs))
   \<subseteq> set (fst (snd (groupLoop gs fc aa i)))"
proof (induction gs arbitrary: fc aa i)
  case Nil
  show ?case by simp
next
  case (Cons g gs)
  obtain c as j where fl: "filterLoop (GroupFilters g) [] [] i = (c, as, j)"
    by (cases "filterLoop (GroupFilters g) [] [] i")
  have sub: "AString ` set (filterStrings (GroupFilters g)) \<subseteq> set as"
    using filterLoop_args [of "GroupFilters g" i] fl by simp
  have empty: "as = []" if "c = []"
  proof -
    obtain cs as' nss where "filterLoop (GroupFilters g) [] [] i = ([] @ cs, [] @ as', i + length as')"
      and "list_all2 reads cs nss" and "concat nss = [i..<i + length as']"
      using filterLoop_reads [of "GroupFilters g" "[]" "[]" i] by blast
    with fl that have "nss = []" "as' = as" "concat nss = [i..<i + length as]" by auto
    then have "[i..<i + length as] = []" by simp
    then show ?thesis by auto
  qed
  define G where "G = AString ` set (concat (map (\<lambda>g. ID g # filterStrings (GroupFilters g)) gs))"
  define F where "F = AString ` set (filterStrings (GroupFilters g))"
  have goal_eq: "AString ` set (concat (map (\<lambda>g. ID g # filterStrings (GroupFilters g)) (g # gs))) =
                 insert (AString (ID g)) F \<union> G"
    by (simp add: G_def F_def image_Un)
  have F: "F \<subseteq> set as" using sub by (simp add: F_def)
  define aa' where "aa' = aa @ [AString (ID g), AInt (Priority g)] @ (if c = [] then [] else as)"
  have "\<exists>fc' i'. groupLoop (g # gs) fc aa i = groupLoop gs fc' aa' i'"
    using fl by (cases "c = []") (simp_all add: Let_def aa'_def, (rule exI, rule exI, rule refl)+)
  then obtain fc' i' where step: "groupLoop (g # gs) fc aa i = groupLoop gs fc' aa' i'"
    by blast
  define S where "S = set (fst (snd (groupLoop gs fc' aa' i')))"
  have "set aa' \<union> G \<subseteq> S"
    unfolding S_def G_def by (rule Cons.IH)
  then have 1: "set aa' \<subseteq> S" and 2: "G \<subseteq> S" by simp_all
  have 3: "set aa \<subseteq> set aa'" and 4: "AString (ID g) \<in> set aa'" and 5: "F \<subseteq> set aa'"
  proof -
    show "set aa \<subseteq> set aa'" by (auto simp: aa'_def)
    show "AString (ID g) \<in> set aa'" by (simp add: aa'_def)
    show "F \<subseteq> set aa'"
    proof (cases "c = []")
      case True
      with empty F have "F = {}" by simp
      then show ?thesis by simp
    next
      case False
      with F show ?thesis by (auto simp: aa'_def)
    qed
  qed
  have "set aa \<union> (insert (AString (ID g)) F \<union> G) \<subseteq> S"
    using 1 2 3 4 5 by blast
  then show ?case
    unfolding step goal_eq S_def .
qed

lemma parseTime_shape:
  "IsZero (StartTime p) = IsZero (StartTime p') \<Longrightarrow> IsZero (EndTime p) = IsZero (EndTime p') \<Longrightarrow>
   fst (parseTimeConditionsWithIndex p i) = fst (parseTimeConditionsWithIndex p' i)"
  by (simp add: parseTime_eq)

lemma baseConditions_shape:
  assumes "queryShape ctx p groups = queryShape ctx' p' groups'"
  shows "fst (baseConditions ctx p) = fst (baseConditions ctx' p')"
proof -
  from assms have t: "(GetTenantID ctx = []) = (GetTenantID ctx' = [])"
    and e: "(GetEnvironmentID ctx = []) = (GetEnvironmentID ctx' = [])"
    and s: "IsZero (StartTime p) = IsZero (StartTime p')"
    and n: "IsZero (EndTime p) = IsZero (EndTime p')"
    and x: "(ExternalCustomerID p = []) = (ExternalCustomerID p' = [])"
    and c: "(CustomerID p = []) = (CustomerID p' = [])"
    and f: "filtersShape (Filters p) = filtersShape (Filters p')"
    by (simp_all add: queryShape_def)
  have ti: "timeIndex ctx = timeIndex ctx'"
    by (simp add: timeIndex_def t e)
  have ci: "customerIndex ctx p = customerIndex ctx' p'"
    by (simp add: customerIndex_def ti s n)
  have fi: "filterIndex ctx p = filterIndex ctx' p'"
    by (simp add: filterIndex_def ci x c)
  show ?thesis
    unfolding baseConditions_stages fst_conv baseStages_eq
    using filterLoop_shape [OF f, of "filterIndex ctx' p'"] parseTime_shape [OF s n, of "timeIndex ctx'"]
    by (simp add: t e x c ti ci fi)
qed

lemma staged_args:
  "concat (map CArgs (cteComponents (staged ctx p groups aggType propertyName))) =
     Args (baseQuery (staged ctx p groups aggType propertyName)) @
     Args (filterQuery (staged ctx p groups aggType propertyName))"
proof (cases "groups = []")
  case True
  then show ?thesis
    by (simp add: staged_components_Nil staged_filter_Nil)
next
  case False
  have "concat (map CArgs (matchedComponents 0 (split (CHR '','') matchedQueryText))) = []"
    by (simp add: matched_reads)
  with False show ?thesis
    by (simp add: staged_components)
qed

lemma compile_args:
  "snd (compile ctx p groups aggType propertyName) =
     snd (baseConditions ctx p) @
     (if groups = [] then [] else fst (snd (groupLoop groups [] [] 1))) @
     snd (aggClause aggType propertyName)"
proof -
  have "snd (compile ctx p groups aggType propertyName) =
     Args (baseQuery (staged ctx p groups aggType propertyName)) @
     Args (filterQuery (staged ctx p groups aggType propertyName)) @
     Args (finalQuery (staged ctx p groups aggType propertyName))"
    using staged_args [of ctx p groups aggType propertyName]
    by (simp add: compile_def staged_def [symmetric] Build_def Let_def)
  then show ?thesis
    by (cases "groups = []") (simp_all add: staged_base staged_final staged_filter staged_filter_Nil)
qed

lemma compile_text:
  "fst (compile ctx p groups aggType propertyName) =
     ''WITH '' @
     join ('','' @ [nl])
       (baseText (join '' AND '' (fst (baseConditions ctx p))) #
        (if groups = [] then []
         else filterText (join ('','' @ [nl, tab, tab, tab]) (fst (groupLoop groups [] [] 1))) #
              map CQuery (matchedComponents 0 (split (CHR '','') matchedQueryText)))) @
     [nl] @
     ''SELECT best_match_group as filter_group_id, '' @ fst (aggClause aggType propertyName) @
     '' as value FROM best_matches GROUP BY best_match_group ORDER BY best_match_group''"
proof (cases "groups = []")
  case True
  then show ?thesis
    by (simp add: compile_def staged_def [symmetric] Build_def Let_def staged_components_Nil
        staged_base staged_final)
next
  case False
  then show ?thesis
    by (simp add: compile_def staged_def [symmetric] Build_def Let_def staged_components
        staged_base staged_final staged_filter)
qed

subsection \<open>The conditions and arguments of the base fragment\<close>

lemma list_ex_app: "list_ex P (xs @ ys) = (list_ex P xs \<or> list_ex P ys)"
  by (induction xs) auto

lemma list_ex_if: "list_ex P (if b then [x] else []) = (b \<and> P x)"
  by simp

lemma filterCondition_prefix:
  "HasPrefix (fst (filterCondition property vals i)) ''JSONExtractString(properties, ?''"
  by (simp add: filterCondition_def)

lemma filterLoop_prefix:
  "c \<in> set (fst (filterLoop fs [] [] i)) \<Longrightarrow> HasPrefix c ''JSONExtractString(properties, ?''"
proof (induction fs arbitrary: i)
  case Nil
  then show ?case by simp
next
  case (Cons f fs)
  obtain property vals where f: "f = (property, vals)" by (cases f)
  from Cons.prems Cons.IH show ?case
    unfolding f filterLoop_Cons using filterCondition_prefix [of property vals i]
    by (auto split: if_splits)
qed

lemma HasPrefix_first: "HasPrefix c (x # xs) \<Longrightarrow> c \<noteq> [] \<and> hd c = x"
  by (cases c) auto

lemma filterLoop_no_prefix:
  assumes "x \<noteq> CHR ''J''"
  shows "\<not> list_ex (\<lambda>c. HasPrefix c (x # xs)) (fst (filterLoop fs [] [] i))"
proof
  assume "list_ex (\<lambda>c. HasPrefix c (x # xs)) (fst (filterLoop fs [] [] i))"
  then obtain c where c: "c \<in> set (fst (filterLoop fs [] [] i))" and h: "HasPrefix c (x # xs)"
    by (auto simp: list_ex_iff)
  from filterLoop_prefix [OF c] have "hd c = CHR ''J''"
    by (cases c) auto
  with HasPrefix_first [OF h] assms show False by simp
qed

lemma filterCondition_strings: "\<exists>ss. fst (snd (filterCondition property vals i)) = map AString ss"
proof (cases "length vals = 1")
  case True
  then have "fst (snd (filterCondition property vals i)) = map AString [property, vals ! 0]"
    by (simp add: filterCondition_def)
  then show ?thesis by blast
next
  case False
  then have "fst (snd (filterCondition property vals i)) = map AString (vals @ [property])"
    by (simp add: filterCondition_def)
  then show ?thesis by blast
qed

lemma filterLoop_strings: "\<exists>ss. fst (snd (filterLoop fs [] [] i)) = map AString ss"
proof (induction fs arbitrary: i)
  case Nil
  show ?case by simp
next
  case (Cons f fs)
  obtain property vals where f: "f = (property, vals)" by (cases f)
  show ?case
  proof (cases "vals = []")
    case True
    with Cons.IH [of i] show ?thesis unfolding f filterLoop_Cons by simp
  next
    case False
    obtain s1 where s1: "fst (snd (filterCondition property vals i)) = map AString s1"
      using filterCondition_strings by blast
    obtain s2 where s2: "fst (snd (filterLoop fs [] [] (snd (snd (filterCondition property vals i))))) = map AString s2"
      using Cons.IH by blast
    have "fst (snd (filterLoop (f # fs) [] [] i)) = map AString (s1 @ s2)"
      unfolding f filterLoop_Cons using False s1 s2 by simp
    then show ?thesis by blast
  qed
qed

lemma baseConditions_conds:
  "fst (baseConditions ctx p) =
     [''event_name = ?'' @ itoa 1] @
      (if GetTenantID ctx \<noteq> [] then [''tenant_id = ?'' @ itoa 2] else []) @
      (if GetEnvironmentID ctx \<noteq> []
       then [''environment_id = ?'' @ itoa (2 + b2n (GetTenantID ctx \<noteq> []))] else []) @
      fst (parseTimeConditionsWithIndex p (timeIndex ctx)) @
      (if ExternalCustomerID p \<noteq> []
       then [''external_customer_id = ?'' @ itoa (customerIndex ctx p)] else []) @
      (if CustomerID p \<noteq> []
       then [''customer_id = ?'' @ itoa (customerIndex ctx p + b2n (ExternalCustomerID p \<noteq> []))]
       else []) @
      fst (filterLoop (Filters p) [] [] (filterIndex ctx p))"
  unfolding baseConditions_stages baseStages_eq by simp

lemma baseConditions_args:
  "snd (baseConditions ctx p) =
      [AString (EventName p)] @
      (if GetTenantID ctx \<noteq> [] then [AString (GetTenantID ctx)] else []) @
      (if GetEnvironmentID ctx \<noteq> [] then [AString (GetEnvironmentID ctx)] else []) @
      fst (snd (parseTimeConditionsWithIndex p (timeIndex ctx))) @
      (if ExternalCustomerID p \<noteq> [] then [AString (ExternalCustomerID p)] else []) @
      (if CustomerID p \<noteq> [] then [AString (CustomerID p)] else []) @
      fst (snd (filterLoop (Filters p) [] [] (filterIndex ctx p)))"
  unfolding baseConditions_stages baseStages_eq by simp

lemma time_conds:
  "fst (parseTimeConditionsWithIndex p i) =
     (if \<not> IsZero (StartTime p) then [''timestamp >= toDateTime64(?'' @ itoa i @ '', 3)''] else []) @
     (if \<not> IsZero (EndTime p)
      then [''timestamp < toDateTime64(?'' @ itoa (i + b2n (\<not> IsZero (StartTime p))) @ '', 3)'']
      else [])"
  by (simp add: parseTime_eq)

lemma time_args:
  "fst (snd (parseTimeConditionsWithIndex p i)) =
     map ATime (filter (\<lambda>t. \<not> IsZero t) [StartTime p, EndTime p])"
  by (simp add: parseTime_eq)

lemma WithBaseFilters_fragment:
  "baseQuery (WithBaseFilters ctx p qb) =
     \<lparr>Query = baseText (join '' AND '' (fst (baseConditions ctx p))), Args = snd (baseConditions ctx p)\<rparr>"
  by (simp add: WithBaseFilters_def Let_def split: prod.splits)

subsection \<open>Substrings of the base fragment\<close>

lemma HasPrefix_Nil [simp]: "HasPrefix s [] = True"
  by (cases s) auto

lemma HasPrefix_cut_hd:
  "y \<noteq> [] \<Longrightarrow> hd y \<notin> set P \<Longrightarrow> HasPrefix (u @ y) P = HasPrefix u P"
proof (induction u P rule: HasPrefix.induct)
  case (2 d q)
  then show ?case by (cases y) auto
qed auto

lemma HasPrefix_cut_last:
  "u \<noteq> [] \<Longrightarrow> last u \<notin> set P \<Longrightarrow> HasPrefix (u @ y) P = HasPrefix u P"
proof (induction u P rule: HasPrefix.induct)
  case (3 c s d q)
  then show ?case by (cases s) auto
qed auto

lemma Contains_Nil [simp]: "Contains s [] = True"
  by (cases s) auto

lemma Contains_skip:
  "P \<noteq> [] \<Longrightarrow> hd P \<notin> set x \<Longrightarrow> Contains (x @ y) P = Contains y P"
proof (induction x)
  case Nil
  then show ?case by simp
next
  case (Cons c x)
  then show ?case by (cases P) auto
qed

lemma Contains_none: "P \<noteq> [] \<Longrightarrow> hd P \<notin> set x \<Longrightarrow> \<not> Contains x P"
  using Contains_skip [of P x "[]"] by simp

lemma Contains_boundary_hd:
  "y \<noteq> [] \<Longrightarrow> hd y \<notin> set P \<Longrightarrow> Contains (x @ y) P = (Contains x P \<or> Contains y P)"
proof (induction x)
  case Nil
  then show ?case by (cases P; cases y) auto
next
  case (Cons c x)
  have "HasPrefix ((c # x) @ y) P = HasPrefix (c # x) P"
    using Cons.prems by (rule HasPrefix_cut_hd)
  with Cons show ?case by auto
qed

lemma Contains_boundary_last:
  "x \<noteq> [] \<Longrightarrow> last x \<notin> set P \<Longrightarrow> Contains (x @ y) P = (Contains x P \<or> Contains y P)"
proof (induction x)
  case Nil
  then show ?case by simp
next
  case (Cons c x)
  have h: "HasPrefix ((c # x) @ y) P = HasPrefix (c # x) P"
    using Cons.prems by (intro HasPrefix_cut_last) simp_all
  show ?case
  proof (cases "x = []")
    case True
    with Cons.prems h show ?thesis by (cases P; cases y) auto
  next
    case False
    with Cons h show ?thesis by auto
  qed
qed

lemma plainPattern_digits: "plainPattern P \<Longrightarrow> c \<in> set P \<Longrightarrow> \<not> is_digit c \<and> c \<noteq> CHR '')''"
  by (auto simp: plainPattern_def list_all_iff)

lemma plainPattern_hd: "plainPattern P \<Longrightarrow> \<not> is_digit (hd P) \<and> hd P \<noteq> CHR '')'' \<and> P \<noteq> []"
  using plainPattern_digits [of P "hd P"] by (auto simp: plainPattern_def)

lemma hd_itoa_digit: "is_digit (hd (itoa n))"
  using itoa_digits [of "hd (itoa n)" n] itoa_not_Nil [of n] by simp

lemma last_itoa_digit: "is_digit (last (itoa n))"
  using itoa_digits [of "last (itoa n)" n] itoa_not_Nil [of n] by simp

lemma Contains_number:
  assumes "plainPattern P"
  shows "Contains (x @ itoa n @ y) P = (Contains x P \<or> Contains y P)"
proof -
  have "hd (itoa n @ y) \<notin> set P"
    using plainPattern_digits [OF assms] hd_itoa_digit [of n] itoa_not_Nil [of n] by auto
  then have "Contains (x @ itoa n @ y) P = (Contains x P \<or> Contains (itoa n @ y) P)"
    using itoa_not_Nil by (intro Contains_boundary_hd) simp_all
  moreover have "hd P \<notin> set (itoa n)"
    using plainPattern_hd [OF assms] itoa_digits by blast
  then have "Contains (itoa n @ y) P = Contains y P"
    using plainPattern_hd [OF assms] by (intro Contains_skip) simp_all
  ultimately show ?thesis by simp
qed

lemma Contains_number_end:
  "plainPattern P \<Longrightarrow> Contains (x @ itoa n) P = Contains x P"
  using Contains_number [of P x n "[]"] plainPattern_hd [of P] by simp

lemma Contains_join:
  assumes "P \<noteq> []" and "hd P \<notin> set sep"
  shows "(\<And>c. c \<in> set cs \<Longrightarrow> c \<noteq> [] \<and> last c \<notin> set P) \<Longrightarrow>
         Contains (join sep cs @ t) P = (list_ex (\<lambda>c. Contains c P) cs \<or> Contains t P)"
proof (induction cs)
  case Nil
  then show ?case using assms(1) by simp
next
  case (Cons x cs)
  have x: "x \<noteq> []" "last x \<notin> set P" using Cons.prems [of x] by simp_all
  show ?case
  proof (cases cs)
    case Nil
    then show ?thesis using Contains_boundary_last [OF x, of t] by simp
  next
    case (Cons y ys)
    have "Contains (x @ (sep @ join sep cs @ t)) P =
          (Contains x P \<or> Contains (sep @ join sep cs @ t) P)"
      using x by (rule Contains_boundary_last)
    moreover have "Contains (sep @ join sep cs @ t) P = Contains (join sep cs @ t) P"
      using assms by (rule Contains_skip)
    moreover have "Contains (join sep cs @ t) P = (list_ex (\<lambda>c. Contains c P) cs \<or> Contains t P)"
      using Cons.prems by (intro Cons.IH) simp
    ultimately show ?thesis using Cons by simp
  qed
qed

lemma endsClosed_pattern: "plainPattern P \<Longrightarrow> endsClosed c \<Longrightarrow> c \<noteq> [] \<and> last c \<notin> set P"
  using plainPattern_digits [of P "last c"] by (auto simp: endsClosed_def)

lemma endsClosed_number: "endsClosed (x @ itoa n)"
  by (simp add: endsClosed_def itoa_not_Nil last_itoa_digit)

lemma endsClosed_paren: "endsClosed (x @ y @ '')'')"
  by (simp add: endsClosed_def)

lemma set_join_phs:
  "set (join '','' (map (\<lambda>n. ''?'' @ itoa n) ns)) \<subseteq> {c. is_digit c \<or> c = CHR ''?'' \<or> c = CHR '',''}"
proof (induction ns)
  case Nil
  show ?case by simp
next
  case (Cons n ns)
  then show ?case
    using itoa_digits [of _ n] by (cases ns) auto
qed

lemma filterCondition_Contains:
  assumes "plainPattern P"
    and "\<not> Contains ''JSONExtractString(properties, ?'' P"
    and "hd P \<notin> set '') = ?IN(,''"
  shows "\<not> Contains (fst (filterCondition property vals i)) P"
    and "endsClosed (fst (filterCondition property vals i))"
proof -
  note hdP = plainPattern_hd [OF assms(1)]
  show "endsClosed (fst (filterCondition property vals i))"
    unfolding filterCondition_def
    using endsClosed_number [of "''JSONExtractString(properties, ?'' @ itoa i @ '') = ?''" "i + 1"]
          endsClosed_paren [of "''JSONExtractString(properties, ?'' @ itoa i"
             "'') IN ('' @ join '','' (map (\<lambda>ia. ''?'' @ itoa (i + ia + 1)) [0..<length vals])"]
    by simp
  show "\<not> Contains (fst (filterCondition property vals i)) P"
  proof (cases "length vals = 1")
    case True
    have "\<not> Contains ('') = ?'' @ itoa (i + 1)) P"
      unfolding Contains_number_end [OF assms(1)]
      using assms(3) hdP by (intro Contains_none) auto
    then have "\<not> Contains (''JSONExtractString(properties, ?'' @ itoa i @ '') = ?'' @ itoa (i + 1)) P"
      unfolding Contains_number [OF assms(1)] using assms(2) by simp
    with True show ?thesis by (simp add: filterCondition_def)
  next
    case False
    let ?X = "join '','' (map (\<lambda>n. ''?'' @ itoa n) [Suc i..<Suc (i + length vals)])"
    have "hd P \<notin> set ('') IN ('' @ ?X @ '')'')"
      using assms(3) hdP set_join_phs [of "[Suc i..<Suc (i + length vals)]"] by auto
    then have "\<not> Contains ('') IN ('' @ ?X @ '')'') P"
      using hdP by (intro Contains_none) auto
    then have "\<not> Contains (''JSONExtractString(properties, ?'' @ itoa i @ '') IN ('' @ ?X @ '')'') P"
      unfolding Contains_number [OF assms(1)] using assms(2) by simp
    with False show ?thesis
      unfolding filterCondition_def in_placeholders by simp
  qed
qed

lemma filterLoop_Contains:
  assumes "plainPattern P"
    and "\<not> Contains ''JSONExtractString(properties, ?'' P"
    and "hd P \<notin> set '') = ?IN(,''"
  shows "c \<in> set (fst (filterLoop fs [] [] i)) \<Longrightarrow> \<not> Contains c P \<and> endsClosed c"
proof (induction fs arbitrary: i)
  case Nil
  then show ?case by simp
next
  case (Cons f fs)
  obtain property vals where f: "f = (property, vals)" by (cases f)
  from Cons.prems Cons.IH show ?case
    unfolding f filterLoop_Cons
    using filterCondition_Contains [OF assms, of property vals i]
    by (auto split: if_splits)
qed

lemma join_Cons: "join sep (c # cs) = c @ (if cs = [] then [] else sep @ join sep cs)"
  by (cases cs) auto

lemma baseText_Contains:
  assumes pp: "plainPattern P"
    and rest: "\<And>c. c \<in> set rest \<Longrightarrow> endsClosed c"
  shows "Contains (baseText (join '' AND '' ((''event_name = ?'' @ itoa n) # rest))) P =
           (Contains (''base_events AS ('' @ [nl, tab, tab, tab] @
              ''SELECT * FROM ('' @ [nl, tab, tab, tab, tab] @
              ''SELECT DISTINCT ON ('' @ getDeduplicationKey @ '') * FROM events WHERE '' @
              ''event_name = ?'') P \<or>
            list_ex (\<lambda>c. Contains c P) rest \<or>
            Contains ('' ORDER BY '' @ getDeduplicationKey @ '' DESC'' @ [nl, tab, tab, tab] @
              '')'' @ [nl, tab, tab] @ '')'') P)"
proof -
  let ?pre = "''base_events AS ('' @ [nl, tab, tab, tab] @
              ''SELECT * FROM ('' @ [nl, tab, tab, tab, tab] @
              ''SELECT DISTINCT ON ('' @ getDeduplicationKey @ '') * FROM events WHERE '' @
              ''event_name = ?''"
  let ?post = "'' ORDER BY '' @ getDeduplicationKey @ '' DESC'' @ [nl, tab, tab, tab] @
              '')'' @ [nl, tab, tab] @ '')''"
  let ?tail = "(if rest = [] then [] else '' AND '' @ join '' AND '' rest) @ ?post"
  note hdP = plainPattern_hd [OF pp]
  have sep: "hd P \<notin> set '' AND ''" using pp by (simp add: plainPattern_def)
  have e: "baseText (join '' AND '' ((''event_name = ?'' @ itoa n) # rest)) = ?pre @ itoa n @ ?tail"
    unfolding baseText_def join_Cons by simp
  have t: "Contains ?tail P = (list_ex (\<lambda>c. Contains c P) rest \<or> Contains ?post P)"
  proof (cases "rest = []")
    case True
    then show ?thesis by simp
  next
    case False
    have "Contains ('' AND '' @ join '' AND '' rest @ ?post) P = Contains (join '' AND '' rest @ ?post) P"
      using hdP sep by (intro Contains_skip) simp_all
    also have "\<dots> = (list_ex (\<lambda>c. Contains c P) rest \<or> Contains ?post P)"
      using hdP sep endsClosed_pattern [OF pp rest] by (intro Contains_join) simp_all
    finally show ?thesis using False by simp
  qed
  show ?thesis
    unfolding e Contains_number [OF pp] t ..
qed

lemma baseConditions_rest:
  "fst (baseConditions ctx p) = (''event_name = ?'' @ itoa 1) # baseRest ctx p"
  by (simp add: baseConditions_conds baseRest_def)

lemma set_if_single: "c \<in> set (if b then [x] else []) \<Longrightarrow> c = x"
  by (cases b) auto

lemma plain_patterns:
  "plainPattern ''tenant_id = ?''" "plainPattern ''environment_id = ?''"
  "plainPattern ''timestamp >= ''" "plainPattern ''timestamp < ''"
  by (simp_all add: plainPattern_def is_digit_def)

lemma filterLoop_endsClosed:
  assumes "c \<in> set (fst (filterLoop fs [] [] i))"
  shows "endsClosed c"
proof -
  have "\<not> Contains c ''timestamp >= '' \<and> endsClosed c"
    by (rule filterLoop_Contains [OF plain_patterns(3) _ _ assms]) simp_all
  then show ?thesis by simp
qed

lemma baseRest_endsClosed:
  assumes "c \<in> set (baseRest ctx p)"
  shows "endsClosed c"
proof -
  have n: "endsClosed (x @ itoa k)" for x k by (rule endsClosed_number)
  have t: "endsClosed (x @ itoa k @ '', 3)'')" for x k
    using endsClosed_paren [of "x @ itoa k" "'', 3''"] by simp
  from assms consider
      "c \<in> set (if GetTenantID ctx \<noteq> [] then [''tenant_id = ?'' @ itoa 2] else [])"
    | "c \<in> set (if GetEnvironmentID ctx \<noteq> []
         then [''environment_id = ?'' @ itoa (2 + b2n (GetTenantID ctx \<noteq> []))] else [])"
    | "c \<in> set (fst (parseTimeConditionsWithIndex p (timeIndex ctx)))"
    | "c \<in> set (if ExternalCustomerID p \<noteq> []
         then [''external_customer_id = ?'' @ itoa (customerIndex ctx p)] else [])"
    | "c \<in> set (if CustomerID p \<noteq> []
         then [''customer_id = ?'' @ itoa (customerIndex ctx p + b2n (ExternalCustomerID p \<noteq> []))]
         else [])"
    | "c \<in> set (fst (filterLoop (Filters p) [] [] (filterIndex ctx p)))"
    unfolding baseRest_def set_append by blast
  then show ?thesis
  proof cases
    case 1
    from set_if_single [OF this] show ?thesis by (simp only: n)
  next
    case 2
    from set_if_single [OF this] show ?thesis by (simp only: n)
  next
    case 3
    then have "c = ''timestamp >= toDateTime64(?'' @ itoa (timeIndex ctx) @ '', 3)'' \<or>
               c = ''timestamp < toDateTime64(?'' @
                     itoa (timeIndex ctx + b2n (\<not> IsZero (StartTime p))) @ '', 3)''"
      unfolding time_conds set_append by (auto dest: set_if_single)
    then show ?thesis
    proof
      assume "c = ''timestamp >= toDateTime64(?'' @ itoa (timeIndex ctx) @ '', 3)''"
      then show ?thesis by (simp only: t)
    next
      assume "c = ''timestamp < toDateTime64(?'' @
                     itoa (timeIndex ctx + b2n (\<not> IsZero (StartTime p))) @ '', 3)''"
      then show ?thesis by (simp only: t)
    qed
  next
    case 4
    from set_if_single [OF this] show ?thesis by (simp only: n)
  next
    case 5
    from set_if_single [OF this] show ?thesis by (simp only: n)
  next
    case 6
    then show ?thesis by (rule filterLoop_endsClosed)
  qed
qed

lemma filterLoop_never:
  assumes "plainPattern P"
    and "\<not> Contains ''JSONExtractString(properties, ?'' P"
    and "hd P \<notin> set '') = ?IN(,''"
  shows "list_ex (\<lambda>c. Contains c P) (fst (filterLoop fs [] [] i)) = False"
  using filterLoop_Contains [OF assms] by (auto simp: list_ex_iff)

lemma baseRest_tenant:
  "list_ex (\<lambda>c. Contains c ''tenant_id = ?'') (baseRest ctx p) = (GetTenantID ctx \<noteq> [])"
proof -
  note pp = plain_patterns(1)
  have f: "list_ex (\<lambda>c. Contains c ''tenant_id = ?'') (fst (filterLoop fs [] [] i)) = False" for fs i
    by (rule filterLoop_never [OF pp]) simp_all
  show ?thesis
    unfolding baseRest_def time_conds list_ex_app list_ex_if f
      Contains_number [OF pp] Contains_number_end [OF pp]
    by simp
qed

lemma baseRest_environment:
  "list_ex (\<lambda>c. Contains c ''environment_id = ?'') (baseRest ctx p) = (GetEnvironmentID ctx \<noteq> [])"
proof -
  note pp = plain_patterns(2)
  have f: "list_ex (\<lambda>c. Contains c ''environment_id = ?'') (fst (filterLoop fs [] [] i)) = False" for fs i
    by (rule filterLoop_never [OF pp]) simp_all
  show ?thesis
    unfolding baseRest_def time_conds list_ex_app list_ex_if f
      Contains_number [OF pp] Contains_number_end [OF pp]
    by simp
qed

lemma baseRest_start:
  "list_ex (\<lambda>c. Contains c ''timestamp >= '') (baseRest ctx p) = (\<not> IsZero (StartTime p))"
proof -
  note pp = plain_patterns(3)
  have f: "list_ex (\<lambda>c. Contains c ''timestamp >= '') (fst (filterLoop fs [] [] i)) = False" for fs i
    by (rule filterLoop_never [OF pp]) simp_all
  show ?thesis
    unfolding baseRest_def time_conds list_ex_app list_ex_if f
      Contains_number [OF pp] Contains_number_end [OF pp]
    by simp
qed

lemma baseRest_end:
  "list_ex (\<lambda>c. Contains c ''timestamp < '') (baseRest ctx p) = (\<not> IsZero (EndTime p))"
proof -
  note pp = plain_patterns(4)
  have f: "list_ex (\<lambda>c. Contains c ''timestamp < '') (fst (filterLoop fs [] [] i)) = False" for fs i
    by (rule filterLoop_never [OF pp]) simp_all
  show ?thesis
    unfolding baseRest_def time_conds list_ex_app list_ex_if f
      Contains_number [OF pp] Contains_number_end [OF pp]
    by simp
qed

lemma base_fragment_Contains:
  assumes pp: "plainPattern P"
    and pre: "\<not> Contains (''base_events AS ('' @ [nl, tab, tab, tab] @
              ''SELECT * FROM ('' @ [nl, tab, tab, tab, tab] @
              ''SELECT DISTINCT ON ('' @ getDeduplicationKey @ '') * FROM events WHERE '' @
              ''event_name = ?'') P"
    and post: "\<not> Contains ('' ORDER BY '' @ getDeduplicationKey @ '' DESC'' @ [nl, tab, tab, tab] @
              '')'' @ [nl, tab, tab] @ '')'') P"
  shows "Contains (Query (baseQuery (WithBaseFilters ctx p qb))) P =
         list_ex (\<lambda>c. Contains c P) (baseRest ctx p)"
proof -
  have r: "\<And>c. c \<in> set (baseRest ctx p) \<Longrightarrow> endsClosed c"
    by (rule baseRest_endsClosed)
  have q: "Query (baseQuery (WithBaseFilters ctx p qb)) =
           baseText (join '' AND '' ((''event_name = ?'' @ itoa 1) # baseRest ctx p))"
    by (simp only: WithBaseFilters_fragment ParameterizedQuery.select_convs baseConditions_rest)
  show ?thesis
    by (simp only: q baseText_Contains [OF pp r] pre post simp_thms)
qed

lemma base_fragment_patterns:
  "Contains (Query (baseQuery (WithBaseFilters ctx p qb))) ''tenant_id = ?'' = (GetTenantID ctx \<noteq> [])"
  "Contains (Query (baseQuery (WithBaseFilters ctx p qb))) ''environment_id = ?'' = (GetEnvironmentID ctx \<noteq> [])"
  "Contains (Query (baseQuery (WithBaseFilters ctx p qb))) ''timestamp >= '' = (\<not> IsZero (StartTime p))"
  "Contains (Query (baseQuery (WithBaseFilters ctx p qb))) ''timestamp < '' = (\<not> IsZero (EndTime p))"
proof -
  have "Contains (Query (baseQuery (WithBaseFilters ctx p qb))) ''tenant_id = ?'' =
        list_ex (\<lambda>c. Contains c ''tenant_id = ?'') (baseRest ctx p)"
    by (rule base_fragment_Contains [OF plain_patterns(1)]) (simp_all add: getDeduplicationKey_def)
  then show "Contains (Query (baseQuery (WithBaseFilters ctx p qb))) ''tenant_id = ?'' = (GetTenantID ctx \<noteq> [])"
    by (simp only: baseRest_tenant)
  have "Contains (Query (baseQuery (WithBaseFilters ctx p qb))) ''environment_id = ?'' =
        list_ex (\<lambda>c. Contains c ''environment_id = ?'') (baseRest ctx p)"
    by (rule base_fragment_Contains [OF plain_patterns(2)]) (simp_all add: getDeduplicationKey_def)
  then show "Contains (Query (baseQuery (WithBaseFilters ctx p qb))) ''environment_id = ?'' = (GetEnvironmentID ctx \<noteq> [])"
    by (simp only: baseRest_environment)
  have "Contains (Query (baseQuery (WithBaseFilters ctx p qb))) ''timestamp >= '' =
        list_ex (\<lambda>c. Contains c ''timestamp >= '') (baseRest ctx p)"
    by (rule base_fragment_Contains [OF plain_patterns(3)]) (simp_all add: getDeduplicationKey_def)
  then show "Contains (Query (baseQuery (WithBaseFilters ctx p qb))) ''timestamp >= '' = (\<not> IsZero (StartTime p))"
    by (simp only: baseRest_start)
  have "Contains (Query (baseQuery (WithBaseFilters ctx p qb))) ''timestamp < '' =
        list_ex (\<lambda>c. Contains c ''timestamp < '') (baseRest ctx p)"
    by (rule base_fragment_Contains [OF plain_patterns(4)]) (simp_all add: getDeduplicationKey_def)
  then show "Contains (Query (baseQuery (WithBaseFilters ctx p qb))) ''timestamp < '' = (\<not> IsZero (EndTime p))"
    by (simp only: baseRest_end)
qed

subsection \<open>Tenant, environment and time-window conditions\<close>

text \<open>
  Claim C8. The conditions that \<^verbatim>\<open>WithBaseFilters\<close> joins into the base fragment hold a
  \<^verbatim>\<open>timestamp >= toDateTime64(?..\<close> condition exactly when the start time is set and a
  \<^verbatim>\<open>timestamp < toDateTime64(?..\<close> condition exactly when the end time is set, and the text of
  the fragment itself contains \<^verbatim>\<open>timestamp >= \<close> exactly when the start time is set and
  \<^verbatim>\<open>timestamp < \<close> exactly when the end time is set, so that an unset bound leaves no
  condition on that side. The arguments added for the window are the \<^verbatim>\<open>time.Time\<close> values
  themselves, start before end, and every other argument of the base fragment is a string.
\<close>

theorem time_window_conditions:
  "(list_ex (\<lambda>c. HasPrefix c ''timestamp >= toDateTime64(?'') (fst (baseConditions ctx p))
      = (\<not> IsZero (StartTime p))) \<and>
   (list_ex (\<lambda>c. HasPrefix c ''timestamp < toDateTime64(?'') (fst (baseConditions ctx p))
      = (\<not> IsZero (EndTime p))) \<and>
   (Contains (Query (baseQuery (WithBaseFilters ctx p qb))) ''timestamp >= ''
      = (\<not> IsZero (StartTime p))) \<and>
   (Contains (Query (baseQuery (WithBaseFilters ctx p qb))) ''timestamp < ''
      = (\<not> IsZero (EndTime p))) \<and>
   fst (snd (parseTimeConditionsWithIndex p i)) =
      map ATime (filter (\<lambda>t. \<not> IsZero t) [StartTime p, EndTime p]) \<and>
   (\<exists>pre post. snd (baseConditions ctx p) =
      map AString pre @ map ATime (filter (\<lambda>t. \<not> IsZero t) [StartTime p, EndTime p]) @ map AString post) \<and>
   baseQuery (WithBaseFilters ctx p qb) =
     \<lparr>Query = baseText (join '' AND '' (fst (baseConditions ctx p))), Args = snd (baseConditions ctx p)\<rparr>"
proof (intro conjI)
  show "list_ex (\<lambda>c. HasPrefix c ''timestamp >= toDateTime64(?'') (fst (baseConditions ctx p))
      = (\<not> IsZero (StartTime p))"
    unfolding baseConditions_conds time_conds list_ex_app list_ex_if
    using filterLoop_no_prefix [of "CHR ''t''" "''imestamp >= toDateTime64(?''" "Filters p" "filterIndex ctx p"]
    by simp
  show "list_ex (\<lambda>c. HasPrefix c ''timestamp < toDateTime64(?'') (fst (baseConditions ctx p))
      = (\<not> IsZero (EndTime p))"
    unfolding baseConditions_conds time_conds list_ex_app list_ex_if
    using filterLoop_no_prefix [of "CHR ''t''" "''imestamp < toDateTime64(?''" "Filters p" "filterIndex ctx p"]
    by simp
  show "Contains (Query (baseQuery (WithBaseFilters ctx p qb))) ''timestamp >= ''
      = (\<not> IsZero (StartTime p))"
    by (rule base_fragment_patterns(3))
  show "Contains (Query (baseQuery (WithBaseFilters ctx p qb))) ''timestamp < ''
      = (\<not> IsZero (EndTime p))"
    by (rule base_fragment_patterns(4))
  show "fst (snd (parseTimeConditionsWithIndex p i)) =
      map ATime (filter (\<lambda>t. \<not> IsZero t) [StartTime p, EndTime p])"
    by (rule time_args)
  show "\<exists>pre post. snd (baseConditions ctx p) =
      map AString pre @ map ATime (filter (\<lambda>t. \<not> IsZero t) [StartTime p, EndTime p]) @ map AString post"
  proof -
    obtain ss where ss: "fst (snd (filterLoop (Filters p) [] [] (filterIndex ctx p))) = map AString ss"
      using filterLoop_strings by blast
    have "snd (baseConditions ctx p) =
      map AString ([EventName p] @ filter (\<lambda>s. s \<noteq> []) [GetTenantID ctx, GetEnvironmentID ctx]) @
      map ATime (filter (\<lambda>t. \<not> IsZero t) [StartTime p, EndTime p]) @
      map AString (filter (\<lambda>s. s \<noteq> []) [ExternalCustomerID p, CustomerID p] @ ss)"
      unfolding baseConditions_args time_args ss by simp
    then show ?thesis by blast
  qed
  show "baseQuery (WithBaseFilters ctx p qb) =
     \<lparr>Query = baseText (join '' AND '' (fst (baseConditions ctx p))), Args = snd (baseConditions ctx p)\<rparr>"
    by (rule WithBaseFilters_fragment)
qed

text \<open>
  Claim C8 at the scenario query, which sets both bounds, and at a query that sets neither.
\<close>

theorem time_window_conditions_witness:
  "list_ex (\<lambda>c. HasPrefix c ''timestamp >= toDateTime64(?'') (fst (baseConditions emptyContext apiCallParams)) \<and>
   list_ex (\<lambda>c. HasPrefix c ''timestamp < toDateTime64(?'') (fst (baseConditions emptyContext apiCallParams)) \<and>
   \<not> list_ex (\<lambda>c. HasPrefix c ''timestamp >= toDateTime64(?'') (fst (baseConditions emptyContext sumParams)) \<and>
   \<not> list_ex (\<lambda>c. HasPrefix c ''timestamp < toDateTime64(?'') (fst (baseConditions emptyContext sumParams)) \<and>
   Contains (Query (baseQuery (WithBaseFilters emptyContext apiCallParams NewQueryBuilder))) ''timestamp >= '' \<and>
   Contains (Query (baseQuery (WithBaseFilters emptyContext apiCallParams NewQueryBuilder))) ''timestamp < '' \<and>
   \<not> Contains (Query (baseQuery (WithBaseFilters emptyContext sumParams NewQueryBuilder))) ''timestamp >= '' \<and>
   \<not> Contains (Query (baseQuery (WithBaseFilters emptyContext sumParams NewQueryBuilder))) ''timestamp < '' \<and>
   fst (snd (parseTimeConditionsWithIndex apiCallParams 2)) = [ATime T0, ATime T1]"
  using time_window_conditions [of emptyContext apiCallParams NewQueryBuilder 2]
        time_window_conditions [of emptyContext sumParams NewQueryBuilder 2]
  by (simp add: apiCallParams_def sumParams_def IsZero_def T0_def T1_def WithBaseFilters_fragment)

text \<open>
  Claim C10. The conditions of the base fragment hold a \<^verbatim>\<open>tenant_id = ?..\<close> condition exactly
  when the context yields a non-empty tenant id, and an \<^verbatim>\<open>environment_id = ?..\<close> condition
  exactly when it yields a non-empty environment id; when both are empty no condition on
  either column is emitted. The same holds of the text of the fragment itself: it contains
  \<^verbatim>\<open>tenant_id = ?\<close> exactly when the tenant id is non-empty and \<^verbatim>\<open>environment_id = ?\<close>
  exactly when the environment id is non-empty. \<^verbatim>\<open>WithBaseFilters\<close> has no error result and
  builds the fragment in every case.
\<close>

theorem tenant_environment_conditions:
  "(list_ex (\<lambda>c. HasPrefix c ''tenant_id = ?'') (fst (baseConditions ctx p))
      = (GetTenantID ctx \<noteq> [])) \<and>
   (list_ex (\<lambda>c. HasPrefix c ''environment_id = ?'') (fst (baseConditions ctx p))
      = (GetEnvironmentID ctx \<noteq> [])) \<and>
   (list_ex (\<lambda>c. HasPrefix c ''tenant_id'' \<or> HasPrefix c ''environment_id'') (fst (baseConditions ctx p))
      = (GetTenantID ctx \<noteq> [] \<or> GetEnvironmentID ctx \<noteq> [])) \<and>
   (Contains (Query (baseQuery (WithBaseFilters ctx p qb))) ''tenant_id = ?''
      = (GetTenantID ctx \<noteq> [])) \<and>
   (Contains (Query (baseQuery (WithBaseFilters ctx p qb))) ''environment_id = ?''
      = (GetEnvironmentID ctx \<noteq> [])) \<and>
   baseQuery (WithBaseFilters ctx p qb) =
     \<lparr>Query = baseText (join '' AND '' (fst (baseConditions ctx p))), Args = snd (baseConditions ctx p)\<rparr>"
proof (intro conjI)
  note nof = filterLoop_no_prefix [of _ _ "Filters p" "filterIndex ctx p"]
  show "list_ex (\<lambda>c. HasPrefix c ''tenant_id = ?'') (fst (baseConditions ctx p))
      = (GetTenantID ctx \<noteq> [])"
    unfolding baseConditions_conds time_conds list_ex_app list_ex_if
    using nof [of "CHR ''t''" "''enant_id = ?''"] by simp
  show "list_ex (\<lambda>c. HasPrefix c ''environment_id = ?'') (fst (baseConditions ctx p))
      = (GetEnvironmentID ctx \<noteq> [])"
    unfolding baseConditions_conds time_conds list_ex_app list_ex_if
    using nof [of "CHR ''e''" "''nvironment_id = ?''"] by simp
  have split_or: "list_ex (\<lambda>c. HasPrefix c ''tenant_id'' \<or> HasPrefix c ''environment_id'') cs =
        (list_ex (\<lambda>c. HasPrefix c ''tenant_id'') cs \<or> list_ex (\<lambda>c. HasPrefix c ''environment_id'') cs)" for cs
    by (auto simp: list_ex_iff)
  show "list_ex (\<lambda>c. HasPrefix c ''tenant_id'' \<or> HasPrefix c ''environment_id'') (fst (baseConditions ctx p))
      = (GetTenantID ctx \<noteq> [] \<or> GetEnvironmentID ctx \<noteq> [])"
    unfolding split_or baseConditions_conds time_conds list_ex_app list_ex_if
    using nof [of "CHR ''t''" "''enant_id''"] nof [of "CHR ''e''" "''nvironment_id''"] by simp
  show "Contains (Query (baseQuery (WithBaseFilters ctx p qb))) ''tenant_id = ?''
      = (GetTenantID ctx \<noteq> [])"
    by (rule base_fragment_patterns(1))
  show "Contains (Query (baseQuery (WithBaseFilters ctx p qb))) ''environment_id = ?''
      = (GetEnvironmentID ctx \<noteq> [])"
    by (rule base_fragment_patterns(2))
  show "baseQuery (WithBaseFilters ctx p qb) =
     \<lparr>Query = baseText (join '' AND '' (fst (baseConditions ctx p))), Args = snd (baseConditions ctx p)\<rparr>"
    by (rule WithBaseFilters_fragment)
qed

text \<open>
  Claim C10 at the test context, which carries both ids, and at a context that carries none.
\<close>

theorem tenant_environment_conditions_witness:
  "list_ex (\<lambda>c. HasPrefix c ''tenant_id = ?'') (fst (baseConditions testContext sumParams)) \<and>
   list_ex (\<lambda>c. HasPrefix c ''environment_id = ?'') (fst (baseConditions testContext sumParams)) \<and>
   \<not> list_ex (\<lambda>c. HasPrefix c ''tenant_id'' \<or> HasPrefix c ''environment_id'')
       (fst (baseConditions emptyContext sumParams)) \<and>
   Contains (Query (baseQuery (WithBaseFilters testContext sumParams NewQueryBuilder))) ''tenant_id = ?'' \<and>
   Contains (Query (baseQuery (WithBaseFilters testContext sumParams NewQueryBuilder))) ''environment_id = ?'' \<and>
   \<not> Contains (Query (baseQuery (WithBaseFilters emptyContext sumParams NewQueryBuilder))) ''tenant_id = ?'' \<and>
   \<not> Contains (Query (baseQuery (WithBaseFilters emptyContext sumParams NewQueryBuilder))) ''environment_id = ?''"
  using tenant_environment_conditions [of testContext sumParams NewQueryBuilder]
        tenant_environment_conditions [of emptyContext sumParams NewQueryBuilder]
  by (simp add: testContext_def emptyContext_def GetTenantID_def GetEnvironmentID_def WithBaseFilters_fragment)

subsection \<open>Aggregation\<close>

lemma itoa_1: "itoa (Suc 0) = ''1''"
  by (simp add: itoa.simps)

text \<open>
  Claim C5, as the code has it. \<^verbatim>\<open>WithAggregation\<close> performs no validation and cannot fail: it
  has no error result. \<^verbatim>\<open>COUNT\<close> compiles to \<^verbatim>\<open>COUNT(*)\<close> with no argument, whatever the
  property name; \<^verbatim>\<open>SUM\<close>, \<^verbatim>\<open>AVG\<close> and \<^verbatim>\<open>COUNT_UNIQUE\<close> compile for every property name, the
  empty one included, which is bound as the single argument; a kind outside the switch yields
  an empty aggregation expression and no argument. In every case the final fragment is built
  and stored.
\<close>

theorem WithAggregation_total:
  "aggClause AggregationCount propertyName = (''COUNT(*)'', []) \<and>
   aggClause AggregationSum propertyName =
     (''SUM(CAST(JSONExtractString(properties, ?1) AS Float64))'', [AString propertyName]) \<and>
   aggClause AggregationAvg propertyName =
     (''AVG(CAST(JSONExtractString(properties, ?1) AS Float64))'', [AString propertyName]) \<and>
   aggClause AggregationCountUnique propertyName =
     (''COUNT(DISTINCT JSONExtractString(properties, ?1))'', [AString propertyName]) \<and>
   aggClause AggregationOther propertyName = ([], []) \<and>
   WithAggregation ctx aggType propertyName qb =
     qb\<lparr>finalQuery :=
          \<lparr>Query = ''SELECT best_match_group as filter_group_id, '' @
                   fst (aggClause aggType propertyName) @
                   '' as value FROM best_matches GROUP BY best_match_group ORDER BY best_match_group'',
           Args = snd (aggClause aggType propertyName)\<rparr>\<rparr>"
  by (simp add: aggClause_def WithAggregation_def itoa_1 split: prod.splits)

text \<open>
  Claim C5 as stated fails: \<^verbatim>\<open>SUM\<close> with an empty property name, and a kind outside the switch,
  both produce a final fragment instead of an error.
\<close>

theorem WithAggregation_empty_property_counterexample:
  "finalQuery (WithAggregation emptyContext AggregationSum [] NewQueryBuilder) =
     \<lparr>Query = ''SELECT best_match_group as filter_group_id, SUM(CAST(JSONExtractString(properties, ?1) AS Float64)) as value FROM best_matches GROUP BY best_match_group ORDER BY best_match_group'',
      Args = [AString []]\<rparr> \<and>
   finalQuery (WithAggregation emptyContext AggregationOther [] NewQueryBuilder) =
     \<lparr>Query = ''SELECT best_match_group as filter_group_id,  as value FROM best_matches GROUP BY best_match_group ORDER BY best_match_group'',
      Args = []\<rparr>"
  by (simp add: aggClause_def WithAggregation_def itoa_1 NewQueryBuilder_def)

subsection \<open>Concrete compilations\<close>

lemmas compile_defs =
  compile_def staged_def Build_def WithAggregation_def aggClause_def WithFilterGroups_def
  WithBaseFilters_def baseConditions_def baseText_def getDeduplicationKey_def
  parseTimeConditionsWithIndex_def IsZero_def GetTenantID_def GetEnvironmentID_def
  filterCondition_def NewQueryBuilder_def Let_def

text \<open>
  Claim C6 at its own input. With no filter group the statement has the base fragment only,
  but the argument list is \<open>[api_call, T0, T1, us-east-1, us-west-1, region]\<close>: the values of
  the two-valued filter come before the property name, although the text numbers the property
  name \<open>?4\<close> and the values \<open>?5\<close>, \<open>?6\<close>. The final \<^verbatim>\<open>SELECT\<close> reads from \<^verbatim>\<open>best_matches\<close>
  and groups by \<^verbatim>\<open>best_match_group\<close> although no such fragment was emitted.
\<close>

theorem compile_api_call_scenario:
  "compile emptyContext apiCallParams [] AggregationCount []
   = (''WITH base_events AS ('' @ [nl, tab, tab, tab] @
      ''SELECT * FROM ('' @ [nl, tab, tab, tab, tab] @
      ''SELECT DISTINCT ON (tenant_id, environment_id, timestamp, id) * FROM events WHERE event_name = ?1 AND timestamp >= toDateTime64(?2, 3) AND timestamp < toDateTime64(?3, 3) AND JSONExtractString(properties, ?4) IN (?5,?6) ORDER BY tenant_id, environment_id, timestamp, id DESC'' @
      [nl, tab, tab, tab] @ '')'' @ [nl, tab, tab] @ '')'' @ [nl] @
      ''SELECT best_match_group as filter_group_id, COUNT(*) as value FROM best_matches GROUP BY best_match_group ORDER BY best_match_group'',
      [AString ''api_call'', ATime T0, ATime T1,
       AString ''us-east-1'', AString ''us-west-1'', AString ''region''])"
  by (simp add: compile_defs emptyContext_def apiCallParams_def T0_def T1_def itoa.simps
      upt_conv_Cons del: upt_Suc)

text \<open>
  Claim C9 at the input of \<^verbatim>\<open>TestFunctionalEquivalenceWithBaseFilters\<close>. The two entry lists
  below are the same Go map, visited in the two possible orders; the compiled argument lists
  differ, so the output is not a function of the query alone.
\<close>

theorem compile_depends_on_map_order:
  "map_of [endpointFilter, methodFilter] = map_of [methodFilter, endpointFilter] \<and>
   snd (compile testContext (equivalenceParams [endpointFilter, methodFilter]) [] AggregationCount [])
   = [AString ''api_calls'', AString ''tenant_123'', AString ''env_123'',
      ATime (Time 63839664000 0), ATime (Time 63842342399 0),
      AString ''cust_external_456'', AString ''cust_456'',
      AString ''/api/v1/users'', AString ''/api/v1/orders'', AString ''endpoint'',
      AString ''method'', AString ''GET''] \<and>
   snd (compile testContext (equivalenceParams [methodFilter, endpointFilter]) [] AggregationCount [])
   = [AString ''api_calls'', AString ''tenant_123'', AString ''env_123'',
      ATime (Time 63839664000 0), ATime (Time 63842342399 0),
      AString ''cust_external_456'', AString ''cust_456'',
      AString ''method'', AString ''GET'',
      AString ''/api/v1/users'', AString ''/api/v1/orders'', AString ''endpoint''] \<and>
   compile testContext (equivalenceParams [endpointFilter, methodFilter]) [] AggregationCount []
   \<noteq> compile testContext (equivalenceParams [methodFilter, endpointFilter]) [] AggregationCount []"
  by (auto simp add: fun_eq_iff compile_defs testContext_def equivalenceParams_def
      endpointFilter_def methodFilter_def itoa.simps)

subsection \<open>The compiled statement as a whole\<close>

lemmas ph_eval = placeholders.simps is_digit_def atoi_def digit_val_def

text \<open>
  Claim C1 as stated fails: with an event name and a \<^verbatim>\<open>SUM\<close> aggregation the statement reads
  \<open>?1\<close> twice, once in the base fragment and once in the final \<^verbatim>\<open>SELECT\<close>, and never
  \<open>?2\<close>, for two arguments.
\<close>

theorem Build_numbering_counterexample:
  "placeholders (fst (compile emptyContext sumParams [] AggregationSum ''amount'')) = [1, 1] \<and>
   snd (compile emptyContext sumParams [] AggregationSum ''amount'') =
     [AString ''test_event'', AString ''amount''] \<and>
   placeholders (fst (compile emptyContext sumParams [] AggregationSum ''amount'')) \<noteq> [1, 2]"
  by (simp add: compile_defs staged_def emptyContext_def sumParams_def itoa.simps ph_eval)

text \<open>
  Claim C2 as stated fails on positions: for a query with one filter group, the group
  identifier is written \<open>?1\<close> in the \<^verbatim>\<open>filter_matches\<close> fragment, whose numbering restarts, and
  the first argument of the returned list is the event name, not the identifier.
\<close>

theorem argument_position_counterexample:
  "Query (filterQuery (staged emptyContext sumParams [emptyGroup] AggregationCount [])) =
     filterText ''(?1, ?2, 1)'' \<and>
   snd (compile emptyContext sumParams [emptyGroup] AggregationCount []) =
     [AString ''test_event'', AString ''empty_group'', AInt 1] \<and>
   snd (compile emptyContext sumParams [emptyGroup] AggregationCount []) ! (1 - 1)
     \<noteq> AString ''empty_group''"
  by (simp add: compile_defs staged_def emptyContext_def sumParams_def emptyGroup_def itoa.simps
      matchedComponents_args)

text \<open>
  Claim C2, as the code has it. The statement text does not depend on any caller-supplied
  string: two inputs of the same shape (the same optional fields present, the same number of
  values per filter entry, the same filter groups entry by entry) and the same aggregation
  kind compile to the same text, whatever the event name, the customer ids, the property
  names, the filter values, the group identifiers and the aggregated property are. Every
  supplied string (the event name, the customer ids that are set, every property name that
  has a value, every filter value, every group identifier) is an element of the returned
  argument list.
\<close>

theorem compile_text_independent_of_values:
  "(queryShape ctx p groups = queryShape ctx' p' groups' \<longrightarrow>
      fst (compile ctx p groups aggType propertyName) =
      fst (compile ctx' p' groups' aggType propertyName')) \<and>
   AString ` set (suppliedStrings p groups) \<subseteq> set (snd (compile ctx p groups aggType propertyName))"
proof (intro conjI impI)
  assume s: "queryShape ctx p groups = queryShape ctx' p' groups'"
  then have g: "map (\<lambda>g. filtersShape (GroupFilters g)) groups =
                map (\<lambda>g. filtersShape (GroupFilters g)) groups'"
    by (simp add: queryShape_def)
  then have "length groups = length groups'"
    using map_eq_imp_length_eq by blast
  then have e: "(groups = []) = (groups' = [])" by auto
  have a: "fst (aggClause aggType propertyName) = fst (aggClause aggType propertyName')"
    by (cases aggType) (simp_all add: aggClause_def)
  show "fst (compile ctx p groups aggType propertyName) =
        fst (compile ctx' p' groups' aggType propertyName')"
    unfolding compile_text
    using baseConditions_shape [OF s] groupLoop_shape [OF g, of "[]" "[]" 1 "[]"] e a
    by simp
next
  have base: "AString ` set (EventName p # filter (\<lambda>s. s \<noteq> []) [ExternalCustomerID p, CustomerID p] @
                 filterStrings (Filters p)) \<subseteq> set (snd (baseConditions ctx p))"
    unfolding baseConditions_args
    using filterLoop_args [of "Filters p" "filterIndex ctx p"] by auto
  have grp: "AString ` set (concat (map (\<lambda>g. ID g # filterStrings (GroupFilters g)) groups))
             \<subseteq> set (if groups = [] then [] else fst (snd (groupLoop groups [] [] 1)))"
    using groupLoop_args [of "[]" groups "[]" 1] by (cases "groups = []") simp_all
  have "AString ` set (suppliedStrings p groups) =
        AString ` set (EventName p # filter (\<lambda>s. s \<noteq> []) [ExternalCustomerID p, CustomerID p] @
                 filterStrings (Filters p)) \<union>
        AString ` set (concat (map (\<lambda>g. ID g # filterStrings (GroupFilters g)) groups))"
    unfolding suppliedStrings_def by (simp only: set_append image_Un append_Cons [symmetric] append_assoc Un_assoc)
  with base grp show "AString ` set (suppliedStrings p groups)
        \<subseteq> set (snd (compile ctx p groups aggType propertyName))"
    unfolding compile_args by (simp only: set_append) blast
qed

text \<open>
  Claim C2 at an injection vector of the test suite: the query with the vector in every
  string position has the shape of the query with \<open>x\<close> there, compiles to the same text, and
  carries the vector in its argument list.
\<close>

theorem compile_text_independent_of_values_witness:
  "queryShape testContext (injectionParams '''; DROP TABLE events; --'') [injectionGroup '''; DROP TABLE events; --'']
     = queryShape testContext (injectionParams ''x'') [injectionGroup ''x''] \<and>
   fst (compile testContext (injectionParams '''; DROP TABLE events; --'') [injectionGroup '''; DROP TABLE events; --''] AggregationSum '''; DROP TABLE events; --'')
     = fst (compile testContext (injectionParams ''x'') [injectionGroup ''x''] AggregationSum ''x'') \<and>
   AString '''; DROP TABLE events; --'' \<in>
     set (snd (compile testContext (injectionParams '''; DROP TABLE events; --'') [injectionGroup '''; DROP TABLE events; --''] AggregationSum '''; DROP TABLE events; --''))"
proof -
  have s: "queryShape testContext (injectionParams '''; DROP TABLE events; --'') [injectionGroup '''; DROP TABLE events; --'']
     = queryShape testContext (injectionParams ''x'') [injectionGroup ''x'']"
    by (simp add: queryShape_def injectionParams_def injectionGroup_def filtersShape_def)
  have m: "'''; DROP TABLE events; --'' \<in> set (suppliedStrings (injectionParams '''; DROP TABLE events; --'') [injectionGroup '''; DROP TABLE events; --''])"
    by (simp add: suppliedStrings_def injectionParams_def)
  from compile_text_independent_of_values
    [of testContext "injectionParams '''; DROP TABLE events; --''" "[injectionGroup '''; DROP TABLE events; --'']"
        testContext "injectionParams ''x''" "[injectionGroup ''x'']" AggregationSum "'''; DROP TABLE events; --''" "''x''"]
    s m
  show ?thesis by blast
qed

subsection \<open>The pieces of the matched-events text\<close>

lemma matched_pieces:
  "map CQuery (matchedComponents 0 (split (CHR '','') matchedQueryText)) =
     [[nl, tab, tab] @ ''SELECT'' @ [nl, tab, tab, tab] @ ''id'',
      ''timestamp'',
      ''properties'',
      ''arrayJoin(group_matches) as matched_group'',
      ''matched_group.1 as group_id'',
      ''matched_group.2 as total_filters'',
      ''matched_group.3 as matches'' @ [nl, tab, tab] @ ''FROM filter_matches'' @ [nl, tab] @ '')'',
      ''best_matches AS ('' @ [nl, tab, tab] @ ''SELECT'' @ [nl, tab, tab, tab] @ ''id'',
      ''properties'',
      ''argMax(group_id'',
      ''(total_filters'',
      ''group_id)) as best_match_group'' @ [nl, tab, tab] @ ''FROM matched_events'' @ [nl, tab, tab] @
        ''WHERE matches = 1'' @ [nl, tab, tab] @ ''GROUP BY id'',
      ''properties'' @ [nl, tab] @ '')'']"
  by (simp add: matchedQueryText_def TrimSpace_def TrimPrefix_def is_space_def Let_def itoa.simps)

end
